theory Spec2Isabelle
  imports Complex_Main "HOL-Library.Multiset"
begin

section \<open>Data model\<close>

text \<open>
  The program keeps vehicles, requests and stops as string-keyed dictionaries. Each
  dictionary becomes a record whose fields are the keys the code reads:
  \<^verbatim>\<open>r["id"], r["o_r"], r["d_r"], r["t_r^pl"], r["t_r^*"]\<close> for a request,
  \<^verbatim>\<open>v["id"], v["q_v"], v["t_v"], v["passengers"], v["trip_set"]\<close> for a vehicle and
  \<^verbatim>\<open>s["type"], s["node"], s["request"]\<close> for a stop. Times and travel times are the
  numbers of the road network, taken as reals.
\<close>

type_synonym node = nat

record request =
  rid :: string
  o_r :: node
  d_r :: node
  t_pl :: real
  t_star :: real

record vehicle =
  vid :: string
  q_v :: node
  t_v :: real
  passengers :: int
  trip_set :: "request list"

datatype stop_type = pickup | dropoff

record stop =
  stop_type :: stop_type
  stop_node :: node
  stop_request :: request

text \<open>
  The road network is read only through
  \<^verbatim>\<open>nx.shortest_path_length(graph, source, target, weight="travel_time")\<close>, which
  returns a number or raises \<^verbatim>\<open>NetworkXNoPath\<close>. The graph is therefore a function
  from two nodes to an optional travel time, \<open>None\<close> standing for the exception.
\<close>

type_synonym road_graph = "node \<Rightarrow> node \<Rightarrow> real option"

text \<open>\<^verbatim>\<open>float("inf")\<close> next to ordinary numbers.\<close>

datatype cost = Finite real | Infinity

fun cost_less :: "real \<Rightarrow> cost \<Rightarrow> bool" where
  "cost_less c Infinity = True"
| "cost_less c (Finite d) = (c < d)"

text \<open>
  The first component of what \<^verbatim>\<open>travel\<close> returns: \<^verbatim>\<open>None\<close>, the vehicle's
  \<^verbatim>\<open>trip_set\<close> handed back as it is (a list of requests), or a list of stops.
\<close>

datatype trip_result = NoTrip | TripSet "request list" | StopSeq "stop list"

section \<open>The permutations of itertools\<close>

text \<open>
  \<^verbatim>\<open>itertools.permutations(xs, r)\<close> yields the arrangements of length \<open>r\<close> in
  lexicographic order of positions: the first element runs through the positions from left
  to right, and the rest is arranged the same way from what remains. \<open>picks\<close> lists each
  element with the remainder of the list, by position; the code calls
  \<^verbatim>\<open>permutations(stops)\<close>, where \<open>r\<close> is the length of the list.
\<close>

fun picks :: "'a list \<Rightarrow> ('a \<times> 'a list) list" where
  "picks [] = []"
| "picks (x # xs) = (x, xs) # map (\<lambda>(y, ys). (y, x # ys)) (picks xs)"

fun perms_of_length :: "nat \<Rightarrow> 'a list \<Rightarrow> 'a list list" where
  "perms_of_length 0 xs = [[]]"
| "perms_of_length (Suc r) xs =
     concat (map (\<lambda>(y, ys). map ((#) y) (perms_of_length r ys)) (picks xs))"

definition permutations :: "'a list \<Rightarrow> 'a list list" where
  "permutations xs = perms_of_length (length xs) xs"

section \<open>The trip feasibility oracle: travel\<close>

subsection \<open>is\_valid\_permutation\<close>

text \<open>
  The loop of the branch for an empty vehicle (\<^verbatim>\<open>if not vehicle["trip_set"]\<close>), with
  its three local variables \<^verbatim>\<open>pickup_seen\<close>, \<^verbatim>\<open>dropoffs_made\<close> and
  \<^verbatim>\<open>pickups_made\<close> as arguments. An early \<^verbatim>\<open>return False\<close> ends the recursion.
\<close>

fun valid_empty_vehicle :: "int \<Rightarrow> string set \<Rightarrow> int \<Rightarrow> int \<Rightarrow> stop list \<Rightarrow> bool" where
  "valid_empty_vehicle max_capacity pickup_seen dropoffs_made pickups_made [] = True"
| "valid_empty_vehicle max_capacity pickup_seen dropoffs_made pickups_made (s # ss) =
     (case stop_type s of
        dropoff \<Rightarrow>
          if rid (stop_request s) \<notin> pickup_seen then False
          else valid_empty_vehicle max_capacity pickup_seen (dropoffs_made + 1) pickups_made ss
      | pickup \<Rightarrow>
          if pickups_made + 1 > dropoffs_made + max_capacity then False
          else valid_empty_vehicle max_capacity (insert (rid (stop_request s)) pickup_seen)
                 dropoffs_made (pickups_made + 1) ss)"

text \<open>
  The loop of the branch for a vehicle with passengers. \<open>n_onboard\<close> is
  \<^verbatim>\<open>len(vehicle["trip_set"])\<close> and \<open>min_dropoffs\<close> is
  \<^verbatim>\<open>min_dropoffs_before_new_pickups\<close>. A drop-off is counted before its request is
  looked up; a pickup is refused first when too few drop-offs have been made, and then when
  \<^verbatim>\<open>pickups_made > dropoffs_made + len(vehicle["trip_set"])\<close>.
\<close>

fun valid_loaded_vehicle ::
  "int \<Rightarrow> int \<Rightarrow> string set \<Rightarrow> int \<Rightarrow> int \<Rightarrow> stop list \<Rightarrow> bool" where
  "valid_loaded_vehicle n_onboard min_dropoffs pickup_seen dropoffs_made pickups_made [] = True"
| "valid_loaded_vehicle n_onboard min_dropoffs pickup_seen dropoffs_made pickups_made (s # ss) =
     (case stop_type s of
        dropoff \<Rightarrow>
          if rid (stop_request s) \<notin> pickup_seen then False
          else valid_loaded_vehicle n_onboard min_dropoffs pickup_seen
                 (dropoffs_made + 1) pickups_made ss
      | pickup \<Rightarrow>
          if dropoffs_made < min_dropoffs then False
          else if pickups_made + 1 > dropoffs_made + n_onboard then False
          else valid_loaded_vehicle n_onboard min_dropoffs
                 (insert (rid (stop_request s)) pickup_seen) dropoffs_made (pickups_made + 1) ss)"

definition min_dropoffs_before_new_pickups :: "vehicle \<Rightarrow> request list \<Rightarrow> int \<Rightarrow> int" where
  "min_dropoffs_before_new_pickups v new_requests max_capacity =
     max 0 (int (length new_requests) - max_capacity + int (length (trip_set v)))"

definition is_valid_permutation :: "vehicle \<Rightarrow> request list \<Rightarrow> int \<Rightarrow> stop list \<Rightarrow> bool" where
  "is_valid_permutation v new_requests max_capacity permutation =
     (if trip_set v = [] then valid_empty_vehicle max_capacity {} 0 0 permutation
      else valid_loaded_vehicle (int (length (trip_set v)))
             (min_dropoffs_before_new_pickups v new_requests max_capacity)
             (set (map rid (trip_set v))) 0 (int (length (trip_set v))) permutation)"

subsection \<open>The simulation of one stop order\<close>

text \<open>
  The inner \<^verbatim>\<open>for stop in stop_order\<close> loop, with \<^verbatim>\<open>current_position\<close>,
  \<^verbatim>\<open>current_time\<close> and \<^verbatim>\<open>total_cost\<close> as arguments. Every \<^verbatim>\<open>valid = False; break\<close>
  (no path, a late pickup, a late drop-off) is the result \<open>None\<close>; a loop that runs to its
  end gives the total cost.
\<close>

fun simulate :: "road_graph \<Rightarrow> real \<Rightarrow> node \<Rightarrow> real \<Rightarrow> real \<Rightarrow> stop list \<Rightarrow> real option" where
  "simulate graph max_delay current_position current_time total_cost [] = Some total_cost"
| "simulate graph max_delay current_position current_time total_cost (s # ss) =
     (case graph current_position (stop_node s) of
        None \<Rightarrow> None
      | Some travel_time \<Rightarrow>
          if stop_type s = pickup \<and> current_time + travel_time > t_pl (stop_request s)
          then None
          else if stop_type s = dropoff
                  \<and> current_time + travel_time > t_star (stop_request s) + max_delay
          then None
          else simulate graph max_delay (stop_node s) (current_time + travel_time)
                 (total_cost + travel_time) ss)"

subsection \<open>travel\<close>

definition stops_of :: "vehicle \<Rightarrow> request list \<Rightarrow> stop list" where
  "stops_of v new_requests =
     map (\<lambda>r. \<lparr>stop_type = dropoff, stop_node = d_r r, stop_request = r\<rparr>) (trip_set v)
     @ map (\<lambda>r. \<lparr>stop_type = pickup, stop_node = o_r r, stop_request = r\<rparr>) new_requests
     @ map (\<lambda>r. \<lparr>stop_type = dropoff, stop_node = d_r r, stop_request = r\<rparr>) new_requests"

text \<open>
  The outer loop over the accepted permutations, with \<^verbatim>\<open>shortest_trip\<close> and
  \<^verbatim>\<open>shortest_trip_cost\<close> as the accumulator. The comparison is strict, so the first of
  several cheapest orders is kept.
\<close>

fun shortest_over ::
  "road_graph \<Rightarrow> real \<Rightarrow> vehicle \<Rightarrow> stop list option \<times> cost \<Rightarrow> stop list list
     \<Rightarrow> stop list option \<times> cost" where
  "shortest_over graph max_delay v best [] = best"
| "shortest_over graph max_delay v best (stop_order # rest) =
     (case simulate graph max_delay (q_v v) (t_v v) 0 stop_order of
        None \<Rightarrow> shortest_over graph max_delay v best rest
      | Some total_cost \<Rightarrow>
          if cost_less total_cost (snd best)
          then shortest_over graph max_delay v (Some stop_order, Finite total_cost) rest
          else shortest_over graph max_delay v best rest)"

definition travel ::
  "vehicle \<Rightarrow> request list \<Rightarrow> road_graph \<Rightarrow> int \<Rightarrow> real \<Rightarrow> trip_result \<times> cost" where
  "travel v new_requests graph max_capacity max_delay =
     (if new_requests = [] \<and> trip_set v = [] then (NoTrip, Infinity)
      else if new_requests = [] then (TripSet (trip_set v), Finite 0)
      else
        (case shortest_over graph max_delay v (None, Infinity)
                (filter (is_valid_permutation v new_requests max_capacity)
                   (permutations (stops_of v new_requests))) of
           (Some (s # ss), shortest_trip_cost) \<Rightarrow> (StopSeq (s # ss), shortest_trip_cost)
         | _ \<Rightarrow> (NoTrip, Infinity)))"


section \<open>Vocabulary of the properties\<close>

text \<open>
  The notions the specification uses to talk about a stop sequence: the pickup and the
  drop-off stop of a request, the number of pickups and drop-offs in a prefix, the time
  at which the vehicle reaches the last stop of a route, and the sum of the leg travel
  times of a route.
\<close>

definition pickup_stop :: "request \<Rightarrow> stop" where
  "pickup_stop r = \<lparr>stop_type = pickup, stop_node = o_r r, stop_request = r\<rparr>"

definition dropoff_stop :: "request \<Rightarrow> stop" where
  "dropoff_stop r = \<lparr>stop_type = dropoff, stop_node = d_r r, stop_request = r\<rparr>"

definition dropoffs_in :: "stop list \<Rightarrow> int" where
  "dropoffs_in ss = int (length (filter (\<lambda>s. stop_type s = dropoff) ss))"

definition pickups_in :: "stop list \<Rightarrow> int" where
  "pickups_in ss = int (length (filter (\<lambda>s. stop_type s = pickup) ss))"

fun arrival_time :: "road_graph \<Rightarrow> node \<Rightarrow> real \<Rightarrow> stop list \<Rightarrow> real option" where
  "arrival_time graph pos t [] = Some t"
| "arrival_time graph pos t (s # ss) =
     (case graph pos (stop_node s) of
        None \<Rightarrow> None
      | Some travel_time \<Rightarrow> arrival_time graph (stop_node s) (t + travel_time) ss)"

fun route_cost :: "road_graph \<Rightarrow> node \<Rightarrow> stop list \<Rightarrow> real option" where
  "route_cost graph pos [] = Some 0"
| "route_cost graph pos (s # ss) =
     (case graph pos (stop_node s) of
        None \<Rightarrow> None
      | Some travel_time \<Rightarrow>
          (case route_cost graph (stop_node s) ss of
             None \<Rightarrow> None
           | Some rest \<Rightarrow> Some (travel_time + rest)))"

text \<open>
  The arrival at the \<open>i\<close>-th stop of a route respects that stop's own deadline: the
  request's latest pickup time for a pickup, its earliest drop-off time plus the allowed
  delay for a drop-off. An unreachable leg gives no arrival time and so fails.
\<close>

definition on_time :: "road_graph \<Rightarrow> real \<Rightarrow> node \<Rightarrow> real \<Rightarrow> stop list \<Rightarrow> nat \<Rightarrow> bool" where
  "on_time graph max_delay pos t seq i =
     (case arrival_time graph pos t (take (Suc i) seq) of
        None \<Rightarrow> False
      | Some a \<Rightarrow>
          (case stop_type (seq ! i) of
             pickup \<Rightarrow> a \<le> t_pl (stop_request (seq ! i))
           | dropoff \<Rightarrow> a \<le> t_star (stop_request (seq ! i)) + max_delay))"

text \<open>
  The six constraints of the specification on a stop ordering for a vehicle and a set of
  new requests, in its words: the ordering covers the stops, each new request is picked up
  before it is dropped off, the load of every prefix is within the capacity, no pickup
  comes before \<open>max(0, |N| - capacity + |O|)\<close> drop-offs, and every stop is reached, in
  time.
\<close>

definition feasible_order ::
  "vehicle \<Rightarrow> request list \<Rightarrow> road_graph \<Rightarrow> int \<Rightarrow> real \<Rightarrow> stop list \<Rightarrow> bool" where
  "feasible_order v new_requests graph max_capacity max_delay seq =
     (mset seq = mset (stops_of v new_requests)
      \<and> (\<forall>r\<in>set new_requests. \<exists>i j. i < j \<and> j < length seq
             \<and> seq ! i = pickup_stop r \<and> seq ! j = dropoff_stop r)
      \<and> (\<forall>k\<le>length seq.
             int (length (trip_set v)) + pickups_in (take k seq) - dropoffs_in (take k seq)
               \<le> max_capacity)
      \<and> (\<forall>i<length seq. stop_type (seq ! i) = pickup \<longrightarrow>
             max 0 (int (length new_requests) - max_capacity + int (length (trip_set v)))
               \<le> dropoffs_in (take i seq))
      \<and> (\<forall>i<length seq. on_time graph max_delay (q_v v) (t_v v) seq i))"

section \<open>The RV graph\<close>

subsection \<open>Request-request edges\<close>

text \<open>
  The body of the loop over \<^verbatim>\<open>combinations(requests, 2)\<close>. The five shortest-path
  queries are made in the order of the source and any \<^verbatim>\<open>NetworkXNoPath\<close> skips the
  pair (\<^verbatim>\<open>continue\<close>). The names are the source's: \<open>o1d1\<close> is queried from the origin
  of the first request to the origin of the second one. The result is the weight of the
  edge that is added, or \<open>None\<close> when no edge is added.
\<close>

definition rr_edge :: "road_graph \<Rightarrow> real \<Rightarrow> real \<Rightarrow> request \<Rightarrow> request \<Rightarrow> real option" where
  "rr_edge graph current_time max_delay req1 req2 =
     (let max_delay_req1 = t_star req1 + max_delay;
          max_delay_req2 = t_star req2 + max_delay
      in case graph (o_r req1) (o_r req2) of None \<Rightarrow> None | Some o1d1 \<Rightarrow>
         (case graph (d_r req1) (o_r req2) of None \<Rightarrow> None | Some d1o2 \<Rightarrow>
         (case graph (o_r req2) (d_r req2) of None \<Rightarrow> None | Some o2d2 \<Rightarrow>
         (case graph (o_r req1) (o_r req2) of None \<Rightarrow> None | Some o1o2 \<Rightarrow>
         (case graph (d_r req1) (d_r req2) of None \<Rightarrow> None | Some d1d2 \<Rightarrow>
            if (current_time + o1d1 \<le> max_delay_req1
                \<and> current_time + o1d1 + d1o2 \<le> t_pl req2
                \<and> current_time + o1d1 + d1o2 + o2d2 \<le> max_delay_req2)
               \<or> (current_time + o1o2 \<le> t_pl req2
                   \<and> current_time + o1o2 + o2d2 \<le> max_delay_req2
                   \<and> current_time + o1o2 + o2d2 + d1d2 \<le> max_delay_req1)
               \<or> (current_time + o1o2 \<le> t_pl req2
                   \<and> current_time + o1o2 + d1o2 \<le> max_delay_req1
                   \<and> current_time + o1o2 + d1o2 + d1d2 \<le> max_delay_req2)
            then Some o1o2 else None)))))"

text \<open>
  The criterion in the words of the specification: one of the three composite trips,
  driven by an empty vehicle that starts at the first request's origin at
  \<open>current_time\<close>, reaches each of its four stops by that stop's own deadline.
\<close>

definition composite_feasible :: "road_graph \<Rightarrow> real \<Rightarrow> real \<Rightarrow> request \<Rightarrow> stop list \<Rightarrow> bool" where
  "composite_feasible graph current_time max_delay req1 seq =
     (\<forall>i<length seq. on_time graph max_delay (o_r req1) current_time seq i)"

definition rr_compatible :: "road_graph \<Rightarrow> real \<Rightarrow> real \<Rightarrow> request \<Rightarrow> request \<Rightarrow> bool" where
  "rr_compatible graph current_time max_delay req1 req2 =
     (composite_feasible graph current_time max_delay req1
        [pickup_stop req1, dropoff_stop req1, pickup_stop req2, dropoff_stop req2]
      \<or> composite_feasible graph current_time max_delay req1
        [pickup_stop req1, pickup_stop req2, dropoff_stop req2, dropoff_stop req1]
      \<or> composite_feasible graph current_time max_delay req1
        [pickup_stop req1, pickup_stop req2, dropoff_stop req1, dropoff_stop req2])"

subsection \<open>The graph\<close>

text \<open>
  The RV graph is a \<^verbatim>\<open>networkx.Graph\<close>: undirected, at most one edge between two
  nodes, nodes and edges kept in the order of their insertion. The model keeps the list of
  node ids and the list of edges, each edge with its attribute dictionary (the keys
  \<^verbatim>\<open>travel_time\<close>, \<^verbatim>\<open>stops\<close>, \<^verbatim>\<open>edge_type\<close>; an RR edge has no \<^verbatim>\<open>stops\<close>).
  The node attributes are stored by the code and never read by it; the model leaves them
  out.
\<close>

datatype edge_type = rr | rv

record edge_data =
  e_travel_time :: real
  e_stops :: "stop list option"
  e_edge_type :: edge_type

type_synonym rv_edge = "string \<times> string \<times> edge_data"

record rv_graph =
  rv_nodes :: "string list"
  rv_edges :: "rv_edge list"

definition empty_graph :: rv_graph where
  "empty_graph = \<lparr>rv_nodes = [], rv_edges = []\<rparr>"

fun same_edge :: "string \<Rightarrow> string \<Rightarrow> rv_edge \<Rightarrow> bool" where
  "same_edge u w (a, b, d) = ((a = u \<and> b = w) \<or> (a = w \<and> b = u))"

definition add_node :: "rv_graph \<Rightarrow> string \<Rightarrow> rv_graph" where
  "add_node g n = (if n \<in> set (rv_nodes g) then g else g\<lparr>rv_nodes := rv_nodes g @ [n]\<rparr>)"

text \<open>
  \<^verbatim>\<open>add_edge(u, v, **attr)\<close> adds the two nodes when they are new; on an edge that
  exists it updates the attribute dictionary with the given keys and leaves the edge in
  its place.
\<close>

definition update_data :: "edge_data \<Rightarrow> edge_data \<Rightarrow> edge_data" where
  "update_data old new =
     \<lparr>e_travel_time = e_travel_time new,
      e_stops = (case e_stops new of None \<Rightarrow> e_stops old | Some s \<Rightarrow> Some s),
      e_edge_type = e_edge_type new\<rparr>"

definition add_edge :: "rv_graph \<Rightarrow> string \<Rightarrow> string \<Rightarrow> edge_data \<Rightarrow> rv_graph" where
  "add_edge g u w d =
     (let g' = add_node (add_node g u) w
      in if list_ex (same_edge u w) (rv_edges g')
         then g'\<lparr>rv_edges :=
                map (\<lambda>e. if same_edge u w e
                          then (fst e, fst (snd e), update_data (snd (snd e)) d) else e)
                    (rv_edges g')\<rparr>
         else g'\<lparr>rv_edges := rv_edges g' @ [(u, w, d)]\<rparr>)"

definition remove_edge :: "rv_graph \<Rightarrow> string \<Rightarrow> string \<Rightarrow> rv_graph" where
  "remove_edge g u w = g\<lparr>rv_edges := filter (\<lambda>e. \<not> same_edge u w e) (rv_edges g)\<rparr>"

text \<open>
  \<^verbatim>\<open>graph.edges(node, data=True)\<close>: the edges at a node, each reported from that node
  to its neighbour, in the order of the node's adjacency.
\<close>

fun incident :: "string \<Rightarrow> rv_edge \<Rightarrow> bool" where
  "incident n (a, b, d) = (a = n \<or> b = n)"

fun orient :: "string \<Rightarrow> rv_edge \<Rightarrow> rv_edge" where
  "orient n (a, b, d) = (if a = n then (n, b, d) else (n, a, d))"

definition edges_at :: "rv_graph \<Rightarrow> string \<Rightarrow> rv_edge list" where
  "edges_at g n = map (orient n) (filter (incident n) (rv_edges g))"

subsection \<open>prune\_edges\<close>

definition starts_with_r :: "string \<Rightarrow> bool" where
  "starts_with_r n = (case n of [] \<Rightarrow> False | c # cs \<Rightarrow> c = CHR ''r'')"

text \<open>
  The edges a node is pruned by: those of type \<^verbatim>\<open>rr\<close> for a node whose id starts with
  \<^verbatim>\<open>r\<close>, those of type \<^verbatim>\<open>rv\<close> for any other node.
\<close>

definition own_edges :: "rv_graph \<Rightarrow> string \<Rightarrow> rv_edge list" where
  "own_edges g n =
     filter (\<lambda>e. e_edge_type (snd (snd e)) = (if starts_with_r n then rr else rv)) (edges_at g n)"

text \<open>
  One round of the loop over the nodes: when the node has more than \<open>top_k\<close> edges of
  its kind, they are sorted by \<^verbatim>\<open>travel_time\<close> (Python's \<^verbatim>\<open>sorted\<close> is stable, as
  \<open>sort_key\<close> is) and those from position \<open>top_k\<close> on are removed from the graph.
  \<open>top_k\<close> is a number of edges and is taken as a natural number.
\<close>

definition prune_node :: "nat \<Rightarrow> rv_graph \<Rightarrow> string \<Rightarrow> rv_graph" where
  "prune_node top_k g n =
     (let edges = own_edges g n
      in if length edges > top_k
         then foldl (\<lambda>g e. remove_edge g (fst e) (fst (snd e))) g
                (drop top_k (sort_key (\<lambda>e. e_travel_time (snd (snd e))) edges))
         else g)"

text \<open>
  \<^verbatim>\<open>rv_graph.copy()\<close> builds a new graph: it adds the nodes in their order and then,
  node by node in that order, every edge of the node's adjacency, in the order of that
  adjacency. An edge is met from both of its end points; the second time it is there and
  keeps its place. So in the copy an edge stands where its earlier end point put it, and
  the adjacency of a node can list its neighbours in another order than in the original.
\<close>

definition copy :: "rv_graph \<Rightarrow> rv_graph" where
  "copy g =
     foldl (\<lambda>h e. add_edge h (fst e) (fst (snd e)) (snd (snd e)))
       (foldl add_node empty_graph (rv_nodes g))
       (concat (map (edges_at g) (rv_nodes g)))"

definition prune_edges :: "rv_graph \<Rightarrow> nat \<Rightarrow> rv_graph" where
  "prune_edges g top_k =
     (let pruned_graph = copy g
      in foldl (prune_node top_k) pruned_graph (rv_nodes pruned_graph))"

subsection \<open>generate\_rv\_graph\<close>

text \<open>\<^verbatim>\<open>itertools.combinations(xs, 2)\<close>: the pairs in the order of their positions.\<close>

fun combinations2 :: "'a list \<Rightarrow> ('a \<times> 'a) list" where
  "combinations2 [] = []"
| "combinations2 (x # xs) = map (Pair x) xs @ combinations2 xs"

text \<open>
  The loop over the requests for one vehicle. An edge is added when \<^verbatim>\<open>valid_trip\<close> is
  truthy, that is when \<open>travel\<close> returned a stop sequence; \<open>travel\<close> returns a stop
  sequence only together with a finite cost.
\<close>

definition add_vr_edge ::
  "road_graph \<Rightarrow> int \<Rightarrow> real \<Rightarrow> vehicle \<Rightarrow> rv_graph \<Rightarrow> request \<Rightarrow> rv_graph" where
  "add_vr_edge graph max_capacity max_delay v g r =
     (case travel v [r] graph max_capacity max_delay of
        (StopSeq valid_trip, Finite trip_cost) \<Rightarrow>
          add_edge g (vid v) (rid r)
            \<lparr>e_travel_time = trip_cost, e_stops = Some valid_trip, e_edge_type = rv\<rparr>
      | _ \<Rightarrow> g)"

definition add_vr_edges ::
  "road_graph \<Rightarrow> int \<Rightarrow> real \<Rightarrow> request list \<Rightarrow> rv_graph \<Rightarrow> vehicle \<Rightarrow> rv_graph" where
  "add_vr_edges graph max_capacity max_delay requests g v =
     (if passengers v \<ge> max_capacity then g
      else foldl (add_vr_edge graph max_capacity max_delay v) g requests)"

definition add_rr_edge ::
  "road_graph \<Rightarrow> real \<Rightarrow> real \<Rightarrow> rv_graph \<Rightarrow> request \<times> request \<Rightarrow> rv_graph" where
  "add_rr_edge graph current_time max_delay g p =
     (case rr_edge graph current_time max_delay (fst p) (snd p) of
        None \<Rightarrow> g
      | Some o1o2 \<Rightarrow>
          add_edge g (rid (fst p)) (rid (snd p))
            \<lparr>e_travel_time = o1o2, e_stops = None, e_edge_type = rr\<rparr>)"

text \<open>The graph as it stands before the last statement of \<^verbatim>\<open>generate_rv_graph\<close>.\<close>

definition build_rv_graph ::
  "road_graph \<Rightarrow> vehicle list \<Rightarrow> request list \<Rightarrow> real \<Rightarrow> int \<Rightarrow> real \<Rightarrow> rv_graph" where
  "build_rv_graph graph vehicles requests current_time max_capacity max_delay =
     (let g1 = foldl add_node empty_graph (map rid requests);
          g2 = foldl add_node g1 (map vid vehicles);
          g3 = foldl (add_vr_edges graph max_capacity max_delay requests) g2 vehicles
      in foldl (add_rr_edge graph current_time max_delay) g3 (combinations2 requests))"

text \<open>
  The parameter \<^verbatim>\<open>prune_edges\<close> and the helper \<^verbatim>\<open>def prune_edges(rv_graph, top_k)\<close>
  inside the function share one local name. The \<^verbatim>\<open>def\<close> statement runs first and binds
  the name to the function, so the test \<^verbatim>\<open>if prune_edges:\<close> at the end looks at a
  function object, which is truthy, whatever was passed. The argument is a parameter of
  the model and has no effect.
\<close>

definition generate_rv_graph ::
  "road_graph \<Rightarrow> vehicle list \<Rightarrow> request list \<Rightarrow> real \<Rightarrow> int \<Rightarrow> real \<Rightarrow> bool \<Rightarrow> nat
     \<Rightarrow> rv_graph" where
  "generate_rv_graph graph vehicles requests current_time max_capacity max_delay
     prune_edges_arg top_k =
     prune_edges (build_rv_graph graph vehicles requests current_time max_capacity max_delay)
       top_k"

text \<open>
  The reading of "the retained edges of a node are those of smallest weight": of the
  edges of its kind that the node had in the constructed graph, it has \<open>top_k\<close> in the
  pruned graph, or all of them when they were fewer, and none that it has kept is heavier
  than one that it has lost. (The edges of a node are reported from that node, so the
  lists have no repetitions.)
\<close>

definition smallest_kept :: "rv_graph \<Rightarrow> rv_graph \<Rightarrow> nat \<Rightarrow> string \<Rightarrow> bool" where
  "smallest_kept built pruned top_k n =
     (let kept = own_edges pruned n; had = own_edges built n
      in set kept \<subseteq> set had \<and> length kept = min top_k (length had)
         \<and> (\<forall>e\<in>set kept. \<forall>x\<in>set had - set kept.
               e_travel_time (snd (snd e)) \<le> e_travel_time (snd (snd x))))"

text \<open>
  The rivals of an edge at a node: the other edges of the node's kind that are as light
  or lighter. An edge reported from one end point is the reverse of the edge reported
  from the other.
\<close>

definition rivals :: "rv_graph \<Rightarrow> string \<Rightarrow> rv_edge \<Rightarrow> rv_edge list" where
  "rivals g n e =
     filter (\<lambda>x. x \<noteq> e \<and> e_travel_time (snd (snd x)) \<le> e_travel_time (snd (snd e)))
       (own_edges g n)"

fun reverse_edge :: "rv_edge \<Rightarrow> rv_edge" where
  "reverse_edge (a, b, d) = (b, a, d)"

subsection \<open>Notions for reasoning about pruning\<close>

text \<open>
  The edges that one round of the pruning loop removes at a node, and the test an edge of
  the graph passes when none of a list of removals names its two end points.
\<close>

definition dropped :: "nat \<Rightarrow> rv_graph \<Rightarrow> string \<Rightarrow> rv_edge list" where
  "dropped top_k g n =
     (if length (own_edges g n) > top_k
      then drop top_k (sort_key (\<lambda>e. e_travel_time (snd (snd e))) (own_edges g n)) else [])"

definition survives :: "rv_edge list \<Rightarrow> rv_edge \<Rightarrow> bool" where
  "survives xs = (\<lambda>e. \<forall>x\<in>set xs. \<not> same_edge (fst x) (fst (snd x)) e)"

text \<open>
  Three invariants of the constructed graph. It is simple: no two edges join the same two
  nodes. Its edges are typed by their end points: of the two end points of an edge of
  type \<^verbatim>\<open>rv\<close>, one is a request id (it starts with \<^verbatim>\<open>r\<close>) and one is not. And the
  end points of its edges are nodes. The key of an edge, its two end points and its
  attributes, is what stays of it when the graph is copied.
\<close>

definition pair_of :: "rv_edge \<Rightarrow> string set" where
  "pair_of e = {fst e, fst (snd e)}"

definition edge_key :: "rv_edge \<Rightarrow> string set \<times> edge_data" where
  "edge_key e = (pair_of e, snd (snd e))"

definition simple_graph :: "rv_graph \<Rightarrow> bool" where
  "simple_graph g = distinct (map pair_of (rv_edges g))"

definition typed_graph :: "rv_graph \<Rightarrow> bool" where
  "typed_graph g =
     (\<forall>e\<in>set (rv_edges g). e_edge_type (snd (snd e)) = rv
        \<longrightarrow> (\<exists>a\<in>pair_of e. starts_with_r a) \<and> (\<exists>b\<in>pair_of e. \<not> starts_with_r b))"

definition nodes_closed :: "rv_graph \<Rightarrow> bool" where
  "nodes_closed g =
     (\<forall>e\<in>set (rv_edges g). fst e \<in> set (rv_nodes g) \<and> fst (snd e) \<in> set (rv_nodes g))"

text \<open>
  A set of edges is consistent when edges between the same two nodes carry the same
  attributes.
\<close>

definition consistent :: "rv_edge set \<Rightarrow> bool" where
  "consistent S = (\<forall>x\<in>S. \<forall>y\<in>S. pair_of x = pair_of y \<longrightarrow> snd (snd x) = snd (snd y))"

section \<open>The greedy assignment\<close>

text \<open>
  The RTV graph is built by a module that is given as input here, and the code reads it
  through four operations of the graph library: the attribute dictionary of a node
  (\<^verbatim>\<open>rtv_graph.nodes[n]\<close>, with the keys \<^verbatim>\<open>type\<close> and, on a trip,
  \<^verbatim>\<open>requests\<close>, a set of request ids), the neighbours of a node in the order of its
  adjacency, the \<^verbatim>\<open>travel_time\<close> of an edge, and the list of all nodes. The graph is
  the record of these four. A node without attributes answers \<open>None\<close>, where the code
  raises \<^verbatim>\<open>KeyError\<close>.
\<close>

datatype node_type = type_request | type_vehicle | type_trip

record rtv_node =
  node_type :: node_type
  node_requests :: "string set"

record rtv_graph =
  rtv_nodes :: "string list"
  rtv_node :: "string \<Rightarrow> rtv_node option"
  rtv_adj :: "string \<Rightarrow> string list"
  rtv_travel_time :: "string \<Rightarrow> string \<Rightarrow> real option"

datatype error = KeyError | ZeroDivisionError | TypeError | NoSolution

text \<open>Division of a cost by a positive count, and the comparison \<^verbatim>\<open><\<close> of two costs.\<close>

fun cost_div :: "cost \<Rightarrow> nat \<Rightarrow> cost" where
  "cost_div (Finite c) n = Finite (c / real n)"
| "cost_div Infinity n = Infinity"

fun cost_lt :: "cost \<Rightarrow> cost \<Rightarrow> bool" where
  "cost_lt (Finite a) (Finite b) = (a < b)"
| "cost_lt (Finite a) Infinity = True"
| "cost_lt Infinity c = False"

text \<open>
  The state of the search for the best pair: \<^verbatim>\<open>best_vehicle\<close> and \<^verbatim>\<open>best_trip\<close>,
  which are set together, and \<^verbatim>\<open>min_cost\<close>.
\<close>

type_synonym best = "(string \<times> string) option \<times> cost"

text \<open>
  The body of the loop over the neighbours of a vehicle. A neighbour that is no trip is
  passed over, and so is a trip that shares a request with the served ones. The cost of
  the edge defaults to infinity; dividing by the number of requests of an empty trip
  raises \<^verbatim>\<open>ZeroDivisionError\<close>.
\<close>

definition consider_trip ::
  "rtv_graph \<Rightarrow> string set \<Rightarrow> string \<Rightarrow> best \<Rightarrow> string \<Rightarrow> error + best" where
  "consider_trip g assigned_requests vehicle_id st trip_id =
     (case rtv_node g trip_id of
        None \<Rightarrow> Inl KeyError
      | Some nd \<Rightarrow>
          if node_type nd \<noteq> type_trip then Inr st
          else if node_requests nd \<inter> assigned_requests \<noteq> {} then Inr st
          else if card (node_requests nd) = 0 then Inl ZeroDivisionError
          else
            (let cost = (case rtv_travel_time g vehicle_id trip_id of
                           None \<Rightarrow> Infinity | Some c \<Rightarrow> Finite c);
                 relative_cost = cost_div cost (card (node_requests nd))
             in if cost_lt relative_cost (snd st)
                then Inr (Some (vehicle_id, trip_id), relative_cost)
                else Inr st))"

fun scan_trips ::
  "rtv_graph \<Rightarrow> string set \<Rightarrow> string \<Rightarrow> best \<Rightarrow> string list \<Rightarrow> error + best" where
  "scan_trips g assigned_requests vehicle_id st [] = Inr st"
| "scan_trips g assigned_requests vehicle_id st (trip_id # rest) =
     (case consider_trip g assigned_requests vehicle_id st trip_id of
        Inl e \<Rightarrow> Inl e
      | Inr st' \<Rightarrow> scan_trips g assigned_requests vehicle_id st' rest)"

fun scan_vehicles :: "rtv_graph \<Rightarrow> string set \<Rightarrow> best \<Rightarrow> string list \<Rightarrow> error + best" where
  "scan_vehicles g assigned_requests st [] = Inr st"
| "scan_vehicles g assigned_requests st (vehicle_id # rest) =
     (case scan_trips g assigned_requests vehicle_id st (rtv_adj g vehicle_id) of
        Inl e \<Rightarrow> Inl e
      | Inr st' \<Rightarrow> scan_vehicles g assigned_requests st' rest)"

text \<open>The loop that marks the requests of the assigned trip as served.\<close>

fun mark_requests :: "rtv_graph \<Rightarrow> string set \<Rightarrow> string list \<Rightarrow> error + string set" where
  "mark_requests g assigned_requests [] = Inr assigned_requests"
| "mark_requests g assigned_requests (request_id # rest) =
     (case rtv_node g request_id of
        None \<Rightarrow> Inl KeyError
      | Some nd \<Rightarrow>
          mark_requests g
            (if node_type nd = type_request then insert request_id assigned_requests
             else assigned_requests) rest)"

text \<open>
  The \<^verbatim>\<open>while unassigned_vehicles\<close> loop. \<^verbatim>\<open>unassigned_vehicles\<close> is a Python set;
  the model keeps its members in a list, and the order in which a \<^verbatim>\<open>for\<close> loop runs
  through the set, which the language leaves open, is the parameter \<open>order\<close>. The test
  \<^verbatim>\<open>if best_vehicle and best_trip\<close> asks for two ids that are set and not empty;
  \<^verbatim>\<open>set.remove\<close> raises \<^verbatim>\<open>KeyError\<close> on an id that is not in the set.
\<close>

function greedy_loop ::
  "rtv_graph \<Rightarrow> (string list \<Rightarrow> string list) \<Rightarrow> string list \<Rightarrow> string set
     \<Rightarrow> (string \<rightharpoonup> string) \<Rightarrow> error + (string \<rightharpoonup> string)" where
  "greedy_loop g order unassigned_vehicles assigned_requests assignment =
     (if unassigned_vehicles = [] then Inr assignment
      else
        (case scan_vehicles g assigned_requests (None, Infinity) (order unassigned_vehicles) of
           Inl e \<Rightarrow> Inl e
         | Inr (None, min_cost) \<Rightarrow> Inr assignment
         | Inr (Some (best_vehicle, best_trip), min_cost) \<Rightarrow>
             if best_vehicle \<noteq> [] \<and> best_trip \<noteq> [] then
               (if best_vehicle \<notin> set unassigned_vehicles then Inl KeyError
                else
                  (case mark_requests g assigned_requests (rtv_adj g best_trip) of
                     Inl e \<Rightarrow> Inl e
                   | Inr assigned_requests' \<Rightarrow>
                       greedy_loop g order (removeAll best_vehicle unassigned_vehicles)
                         assigned_requests' (assignment(best_vehicle \<mapsto> best_trip))))
             else Inr assignment))"
  by pat_completeness auto
termination
proof (relation "measure (\<lambda>(g, order, unassigned_vehicles, assigned_requests, assignment).
           length unassigned_vehicles)")
  show "wf (measure (\<lambda>(g, order, unassigned_vehicles, assigned_requests, assignment).
           length unassigned_vehicles))" by simp
next
  fix g :: rtv_graph and order :: "string list \<Rightarrow> string list"
    and unassigned_vehicles :: "string list" and assigned_requests :: "string set"
    and assignment :: "string \<rightharpoonup> string" and best_vehicle best_trip :: string
    and assigned_requests' :: "string set"
  assume "\<not> best_vehicle \<notin> set unassigned_vehicles"
  then have "length (removeAll best_vehicle unassigned_vehicles) < length unassigned_vehicles"
    by (simp add: length_removeAll_less)
  then show "((g, order, removeAll best_vehicle unassigned_vehicles, assigned_requests',
         assignment(best_vehicle \<mapsto> best_trip)),
        (g, order, unassigned_vehicles, assigned_requests, assignment))
       \<in> measure (\<lambda>(g, order, unassigned_vehicles, assigned_requests, assignment).
           length unassigned_vehicles)" by simp
qed

text \<open>
  \<^verbatim>\<open>rtv_graph.degree(n)\<close> is the number of edges at a node of the graph. Asked for an
  id that is no node, the graph library answers with a view of degrees instead of a
  number, and comparing that view with \<^verbatim>\<open>0\<close> raises \<^verbatim>\<open>TypeError\<close>: the degree is
  \<open>None\<close> there. The code only asks whether the degree is positive, which is whether the
  node has a neighbour.
\<close>

definition degree :: "rtv_graph \<Rightarrow> string \<Rightarrow> nat option" where
  "degree g n = (if n \<in> set (rtv_nodes g) then Some (length (rtv_adj g n)) else None)"

text \<open>
  The set comprehension that collects the vehicles of positive degree, run through the
  list of vehicles: it raises at the first vehicle that is no node of the graph.
\<close>

fun positive_degree :: "rtv_graph \<Rightarrow> vehicle list \<Rightarrow> error + string list" where
  "positive_degree g [] = Inr []"
| "positive_degree g (vehicle # rest) =
     (case degree g (vid vehicle) of
        None \<Rightarrow> Inl TypeError
      | Some d \<Rightarrow>
          (case positive_degree g rest of
             Inl e \<Rightarrow> Inl e
           | Inr ids \<Rightarrow> Inr (if d > 0 then vid vehicle # ids else ids)))"

text \<open>
  \<^verbatim>\<open>greedy_assignment\<close>: the vehicles with at least one neighbour are unassigned at the
  start, no request is served and the assignment is empty.
\<close>

definition greedy_assignment ::
  "rtv_graph \<Rightarrow> (string list \<Rightarrow> string list) \<Rightarrow> vehicle list
     \<Rightarrow> error + (string \<rightharpoonup> string)" where
  "greedy_assignment g order vehicles =
     (case positive_degree g vehicles of
        Inl e \<Rightarrow> Inl e
      | Inr ids \<Rightarrow> greedy_loop g order (remdups ids) {} Map.empty)"

subsection \<open>The algorithm in the words of the specification\<close>

text \<open>
  A pair of a vehicle and a trip is eligible when the vehicle is still unassigned, the trip
  is one of its neighbours and none of the trip's requests is served. Its relative cost is
  the cost of the edge divided by the number of requests of the trip (every pair that the
  procedure looks at in a well-formed graph has an edge cost).
\<close>

definition requests_of :: "rtv_graph \<Rightarrow> string \<Rightarrow> string set" where
  "requests_of g t = (case rtv_node g t of None \<Rightarrow> {} | Some nd \<Rightarrow> node_requests nd)"

definition is_trip :: "rtv_graph \<Rightarrow> string \<Rightarrow> bool" where
  "is_trip g t = (case rtv_node g t of None \<Rightarrow> False | Some nd \<Rightarrow> node_type nd = type_trip)"

definition eligible :: "rtv_graph \<Rightarrow> string set \<Rightarrow> string set \<Rightarrow> string \<Rightarrow> string \<Rightarrow> bool" where
  "eligible g unassigned served v t =
     (v \<in> unassigned \<and> t \<in> set (rtv_adj g v) \<and> is_trip g t \<and> requests_of g t \<inter> served = {})"

definition relative_cost :: "rtv_graph \<Rightarrow> string \<Rightarrow> string \<Rightarrow> real" where
  "relative_cost g v t =
     (case rtv_travel_time g v t of None \<Rightarrow> 0 | Some c \<Rightarrow> c / real (card (requests_of g t)))"

text \<open>
  The greedy procedure as a relation between a state (the unassigned vehicles, the served
  requests, the assignment so far) and the assignment it ends with: it stops exactly when
  no pair is eligible, and otherwise assigns an eligible pair of least relative cost, marks
  the trip's requests served and takes the vehicle out of the pool.
\<close>

inductive greedy_spec ::
  "rtv_graph \<Rightarrow> string set \<Rightarrow> string set \<Rightarrow> (string \<rightharpoonup> string) \<Rightarrow> (string \<rightharpoonup> string) \<Rightarrow> bool"
  for g :: rtv_graph where
  stop: "(\<And>v t. \<not> eligible g unassigned served v t)
           \<Longrightarrow> greedy_spec g unassigned served assignment assignment"
| step: "eligible g unassigned served v t
           \<Longrightarrow> (\<And>v' t'. eligible g unassigned served v' t'
                   \<Longrightarrow> relative_cost g v t \<le> relative_cost g v' t')
           \<Longrightarrow> greedy_spec g (unassigned - {v}) (served \<union> requests_of g t)
                 (assignment(v \<mapsto> t)) final
           \<Longrightarrow> greedy_spec g unassigned served assignment final"

text \<open>
  What the greedy assignment expects of the RTV graph, by the data model: every vehicle
  is a node of the graph, the ids of vehicles and trips are not empty, every neighbour of
  a vehicle and of a trip is a node with attributes, and a trip next to a vehicle has an
  edge cost and a nonempty set of requests, which are its neighbours of type request.
\<close>

definition wf_rtv :: "rtv_graph \<Rightarrow> vehicle list \<Rightarrow> bool" where
  "wf_rtv g vehicles =
     (\<forall>v\<in>set vehicles. vid v \<in> set (rtv_nodes g) \<and> vid v \<noteq> [] \<and>
        (\<forall>t\<in>set (rtv_adj g (vid v)).
           rtv_node g t \<noteq> None \<and>
           (is_trip g t \<longrightarrow>
              t \<noteq> [] \<and> rtv_travel_time g (vid v) t \<noteq> None \<and> requests_of g t \<noteq> {}
              \<and> (\<forall>n\<in>set (rtv_adj g t). rtv_node g n \<noteq> None)
              \<and> requests_of g t
                  = {n \<in> set (rtv_adj g t).
                       \<exists>nd. rtv_node g n = Some nd \<and> node_type nd = type_request})))"

subsection \<open>Notions for reasoning about the greedy assignment\<close>

text \<open>
  The state of the search is right for a set of pairs looked at so far: with no best pair
  yet, \<^verbatim>\<open>min_cost\<close> is still infinite and none of the pairs has a trip whose requests
  are all unserved; with a best pair, it is one of them, its trip is such a trip,
  \<^verbatim>\<open>min_cost\<close> is its relative cost, and no such pair is cheaper.
\<close>

definition open_trip :: "rtv_graph \<Rightarrow> string set \<Rightarrow> string \<Rightarrow> bool" where
  "open_trip g served t = (is_trip g t \<and> requests_of g t \<inter> served = {})"

definition best_ok :: "rtv_graph \<Rightarrow> string set \<Rightarrow> (string \<times> string) set \<Rightarrow> best \<Rightarrow> bool" where
  "best_ok g served X st =
     (case fst st of
        None \<Rightarrow> snd st = Infinity \<and> (\<forall>p\<in>X. \<not> open_trip g served (snd p))
      | Some b \<Rightarrow>
          b \<in> X \<and> open_trip g served (snd b)
          \<and> snd st = Finite (relative_cost g (fst b) (snd b))
          \<and> (\<forall>p\<in>X. open_trip g served (snd p)
                \<longrightarrow> relative_cost g (fst b) (snd b) \<le> relative_cost g (fst p) (snd p)))"

text \<open>What the scan needs of one neighbour of a vehicle.\<close>

definition trip_ready :: "rtv_graph \<Rightarrow> string \<Rightarrow> string \<Rightarrow> bool" where
  "trip_ready g v t =
     (rtv_node g t \<noteq> None
      \<and> (is_trip g t \<longrightarrow> rtv_travel_time g v t \<noteq> None
            \<and> requests_of g t \<noteq> {} \<and> finite (requests_of g t)))"

text \<open>Any two trips of an assignment share no request.\<close>

definition disjoint_trips :: "rtv_graph \<Rightarrow> (string \<rightharpoonup> string) \<Rightarrow> bool" where
  "disjoint_trips g A =
     (\<forall>v1 v2 t1 t2. v1 \<noteq> v2 \<and> A v1 = Some t1 \<and> A v2 = Some t2
        \<longrightarrow> requests_of g t1 \<inter> requests_of g t2 = {})"

section \<open>The assignment as an integer program\<close>

text \<open>
  \<^verbatim>\<open>assignment_ilp\<close> hands a model to an external solver. The model is data: the
  variables with their types, in the order of the calls of \<^verbatim>\<open>model.addVar\<close>, a linear
  objective with its sense, and linear constraints. A variable is told from the others
  by its name: \<open>Eps trip vehicle\<close> is \<^verbatim>\<open>epsilon_{trip}_{vehicle}\<close>, the entry
  \<^verbatim>\<open>epsilon[(trip, vehicle)]\<close>, and \<open>Chi request_id\<close> is \<^verbatim>\<open>chi_{request_id}\<close>. The
  type of a variable is one of the solver's \<^verbatim>\<open>GRB.BINARY\<close> and \<^verbatim>\<open>GRB.CONTINUOUS\<close>,
  the sense of the objective one of \<^verbatim>\<open>GRB.MINIMIZE\<close> and \<^verbatim>\<open>GRB.MAXIMIZE\<close>.
\<close>

datatype var = Eps string string | Chi string

datatype var_type = Binary | Continuous

datatype objective_sense = Minimize | Maximize

datatype sense = LessEq | Equal

record lin_constr =
  c_terms :: "var list"
  c_sense :: sense
  c_rhs :: real

record ilp =
  ilp_vars :: "(var \<times> var_type) list"
  ilp_objective :: "(real \<times> var) list"
  ilp_sense :: objective_sense
  ilp_constrs :: "lin_constr list"

text \<open>The keys of a Python dictionary filled in the given order: first occurrences.\<close>

definition dict_keys :: "'a list \<Rightarrow> 'a list" where
  "dict_keys xs = rev (remdups (rev xs))"

definition is_vehicle :: "rtv_graph \<Rightarrow> string \<Rightarrow> bool" where
  "is_vehicle g n =
     (case rtv_node g n of None \<Rightarrow> False | Some nd \<Rightarrow> node_type nd = type_vehicle)"

text \<open>
  The loop that fills \<^verbatim>\<open>epsilon\<close> runs, for every node of type trip, in the order of
  the nodes, through its neighbours of type vehicle, in the order of its adjacency. Each
  pass creates a variable and stores it under the pair (\<open>epsilon_entries\<close>); the keys of
  the dictionary are the pairs in the order of their first entry.
\<close>

definition epsilon_entries :: "rtv_graph \<Rightarrow> (string \<times> string) list" where
  "epsilon_entries g =
     concat (map (\<lambda>trip. map (Pair trip) (filter (is_vehicle g) (rtv_adj g trip)))
               (filter (is_trip g) (rtv_nodes g)))"

definition epsilon_keys :: "rtv_graph \<Rightarrow> (string \<times> string) list" where
  "epsilon_keys g = dict_keys (epsilon_entries g)"

text \<open>
  The edges of the constraint of one request: the trips that contain the request, each
  with those of its neighbours that form a key of \<^verbatim>\<open>epsilon\<close> with it.
\<close>

definition relevant_edges :: "rtv_graph \<Rightarrow> string \<Rightarrow> (string \<times> string) list" where
  "relevant_edges g request_id =
     concat (map (\<lambda>trip. map (Pair trip)
                    (filter (\<lambda>vehicle. (trip, vehicle) \<in> set (epsilon_keys g)) (rtv_adj g trip)))
               (filter (\<lambda>trip. is_trip g trip \<and> request_id \<in> requests_of g trip)
                  (rtv_nodes g)))"

definition edge_cost :: "rtv_graph \<Rightarrow> string \<times> string \<Rightarrow> real" where
  "edge_cost g e = (case rtv_travel_time g (fst e) (snd e) of None \<Rightarrow> 0 | Some c \<Rightarrow> c)"

text \<open>
  The model: one binary variable for every entry of \<^verbatim>\<open>epsilon\<close> and one for every
  element of the list of requests (an id that comes twice gets two variables of one name,
  of which \<^verbatim>\<open>chi\<close> keeps the later one); the objective, a term for every key of
  \<^verbatim>\<open>epsilon\<close> and a term for every element of the list of requests, to be minimised;
  a constraint for every element of the list of vehicles and one for every element of
  the list of requests.
\<close>

definition build_ilp :: "rtv_graph \<Rightarrow> vehicle list \<Rightarrow> request list \<Rightarrow> real \<Rightarrow> ilp" where
  "build_ilp g vehicles requests cost_penalty =
     \<lparr>ilp_vars = map (\<lambda>e. (Eps (fst e) (snd e), Binary)) (epsilon_entries g)
                  @ map (\<lambda>r. (Chi (rid r), Binary)) requests,
      ilp_objective =
        map (\<lambda>e. (edge_cost g e, Eps (fst e) (snd e))) (epsilon_keys g)
        @ map (\<lambda>r. (cost_penalty, Chi (rid r))) requests,
      ilp_sense = Minimize,
      ilp_constrs =
        map (\<lambda>vehicle_data.
               \<lparr>c_terms = map (\<lambda>e. Eps (fst e) (snd e))
                            (filter (\<lambda>e. snd e = vid vehicle_data) (epsilon_keys g)),
                c_sense = LessEq, c_rhs = 1\<rparr>) vehicles
        @ map (\<lambda>r.
               \<lparr>c_terms = map (\<lambda>e. Eps (fst e) (snd e)) (relevant_edges g (rid r))
                            @ [Chi (rid r)],
                c_sense = Equal, c_rhs = 1\<rparr>) requests\<rparr>"

text \<open>
  The code raises \<^verbatim>\<open>KeyError\<close> when it reads the type of a node that has no
  attributes (every node, and every neighbour of a trip) or the \<^verbatim>\<open>travel_time\<close> of a
  key of \<^verbatim>\<open>epsilon\<close> whose edge has none. Nothing else in the construction can raise.
\<close>

definition readable :: "rtv_graph \<Rightarrow> bool" where
  "readable g =
     ((\<forall>n\<in>set (rtv_nodes g). rtv_node g n \<noteq> None)
      \<and> (\<forall>t\<in>set (rtv_nodes g). is_trip g t \<longrightarrow> (\<forall>n\<in>set (rtv_adj g t). rtv_node g n \<noteq> None))
      \<and> (\<forall>e\<in>set (epsilon_keys g). rtv_travel_time g (fst e) (snd e) \<noteq> None))"

text \<open>
  The warm start: the pairs of the greedy assignment that are keys of \<^verbatim>\<open>epsilon\<close>.
\<close>

definition warm_start :: "rtv_graph \<Rightarrow> (string \<times> string) list \<Rightarrow> var list" where
  "warm_start g greedy =
     map (\<lambda>p. Eps (snd p) (fst p)) (filter (\<lambda>p. (snd p, fst p) \<in> set (epsilon_keys g)) greedy)"

text \<open>
  The loop that reads the solution: in the order of the keys, every key whose variable
  has a value above 0.5 is stored under its vehicle, a later one replacing an earlier one.
\<close>

fun read_solution ::
  "(var \<Rightarrow> real) \<Rightarrow> (string \<rightharpoonup> string) \<Rightarrow> (string \<times> string) list \<Rightarrow> (string \<rightharpoonup> string)" where
  "read_solution x optimal_assignment [] = optimal_assignment"
| "read_solution x optimal_assignment (edge # rest) =
     read_solution x
       (if x (Eps (fst edge) (snd edge)) > 0.5
        then optimal_assignment(snd edge \<mapsto> fst edge) else optimal_assignment) rest"

text \<open>
  \<^verbatim>\<open>assignment_ilp\<close>. The solver (\<^verbatim>\<open>model.optimize()\<close> with its time limit and gap,
  followed by the reading of the attribute \<^verbatim>\<open>x\<close> of the variables) is a parameter: it
  is given the model and the warm start and answers with a value for every variable, or
  with nothing, in which case reading \<^verbatim>\<open>x\<close> raises.
\<close>

definition assignment_ilp ::
  "(ilp \<Rightarrow> var list \<Rightarrow> (var \<Rightarrow> real) option) \<Rightarrow> rtv_graph \<Rightarrow> vehicle list \<Rightarrow> request list
     \<Rightarrow> (string \<times> string) list \<Rightarrow> real \<Rightarrow> error + (string \<rightharpoonup> string)" where
  "assignment_ilp solver g vehicles requests greedy cost_penalty =
     (if \<not> readable g then Inl KeyError
      else
        (case solver (build_ilp g vehicles requests cost_penalty) (warm_start g greedy) of
           None \<Rightarrow> Inl NoSolution
         | Some x \<Rightarrow> Inr (read_solution x Map.empty (epsilon_keys g))))"

subsection \<open>The meaning of a model\<close>

text \<open>
  The value of the objective and the truth of a constraint under an assignment of numbers
  to the variables; a solution gives every variable a value of its type (0 or 1 for a
  binary variable) and satisfies every constraint. A solution is optimal when no solution
  has a better value of the objective, in the sense of the model.
\<close>

fun admits :: "var_type \<Rightarrow> real \<Rightarrow> bool" where
  "admits Binary a = (a = 0 \<or> a = 1)"
| "admits Continuous a = True"

definition objective_value :: "(var \<Rightarrow> real) \<Rightarrow> ilp \<Rightarrow> real" where
  "objective_value x m = sum_list (map (\<lambda>p. fst p * x (snd p)) (ilp_objective m))"

definition holds :: "(var \<Rightarrow> real) \<Rightarrow> lin_constr \<Rightarrow> bool" where
  "holds x c =
     (case c_sense c of
        LessEq \<Rightarrow> sum_list (map x (c_terms c)) \<le> c_rhs c
      | Equal \<Rightarrow> sum_list (map x (c_terms c)) = c_rhs c)"

definition solution :: "(var \<Rightarrow> real) \<Rightarrow> ilp \<Rightarrow> bool" where
  "solution x m =
     ((\<forall>p\<in>set (ilp_vars m). admits (snd p) (x (fst p)))
      \<and> (\<forall>c\<in>set (ilp_constrs m). holds x c))"

definition better :: "objective_sense \<Rightarrow> real \<Rightarrow> real \<Rightarrow> bool" where
  "better s a b = (case s of Minimize \<Rightarrow> a \<le> b | Maximize \<Rightarrow> b \<le> a)"

definition optimal :: "(var \<Rightarrow> real) \<Rightarrow> ilp \<Rightarrow> bool" where
  "optimal x m =
     (solution x m
      \<and> (\<forall>y. solution y m \<longrightarrow> better (ilp_sense m) (objective_value x m) (objective_value y m)))"

text \<open>
  The T-V edges of the RTV graph, and what the specification asks of the program: one
  \<open>Eps\<close> per T-V edge and one \<open>Chi\<close> per request; for every vehicle at most one of its
  edges chosen; for every request the chosen edges of the trips that contain it, plus its
  \<open>Chi\<close>, sum to one; and the objective is the cost of the chosen edges plus the penalty
  for every unserved request.
\<close>

definition tv_edges :: "rtv_graph \<Rightarrow> (string \<times> string) set" where
  "tv_edges g =
     {(t, v). t \<in> set (rtv_nodes g) \<and> is_trip g t \<and> v \<in> set (rtv_adj g t) \<and> is_vehicle g v}"

definition spec_constraints ::
  "rtv_graph \<Rightarrow> vehicle list \<Rightarrow> request list \<Rightarrow> (var \<Rightarrow> real) \<Rightarrow> bool" where
  "spec_constraints g vehicles requests x =
     ((\<forall>vd\<in>set vehicles.
         (\<Sum>e\<in>{e \<in> tv_edges g. snd e = vid vd}. x (Eps (fst e) (snd e))) \<le> 1)
      \<and> (\<forall>r\<in>set requests.
           (\<Sum>e\<in>{e \<in> tv_edges g. rid r \<in> requests_of g (fst e)}. x (Eps (fst e) (snd e)))
             + x (Chi (rid r)) = 1))"

definition spec_objective ::
  "rtv_graph \<Rightarrow> request list \<Rightarrow> real \<Rightarrow> (var \<Rightarrow> real) \<Rightarrow> real" where
  "spec_objective g requests cost_penalty x =
     (\<Sum>e\<in>tv_edges g. edge_cost g e * x (Eps (fst e) (snd e)))
       + cost_penalty * (\<Sum>r\<leftarrow>requests. x (Chi (rid r)))"

section \<open>Test scenarios\<close>

text \<open>
  A road along a line: the nodes are numbered by their position in seconds of travel, and
  the shortest travel time between two nodes is their distance.
\<close>

definition line_road :: road_graph where
  "line_road u w = Some (if u \<le> w then real (w - u) else real (u - w))"

text \<open>
  A vehicle at node 0 carrying one passenger to node 60, and a new request from node 60
  to node 120.
\<close>

definition r_onboard :: request where
  "r_onboard = \<lparr>rid = ''r_p1'', o_r = 0, d_r = 60, t_pl = 0, t_star = 60\<rparr>"

definition r_new :: request where
  "r_new = \<lparr>rid = ''r1'', o_r = 60, d_r = 120, t_pl = 500, t_star = 60\<rparr>"

definition v_loaded :: vehicle where
  "v_loaded = \<lparr>vid = ''v1'', q_v = 0, t_v = 0, passengers = 1, trip_set = [r_onboard]\<rparr>"

text \<open>
  A vehicle at node 0 carrying one passenger to node 90, and a new request that starts
  where the vehicle stands and ends at node 30, on the way.
\<close>

definition r_far :: request where
  "r_far = \<lparr>rid = ''r_p1'', o_r = 0, d_r = 90, t_pl = 0, t_star = 90\<rparr>"

definition r_near :: request where
  "r_near = \<lparr>rid = ''r1'', o_r = 0, d_r = 30, t_pl = 300, t_star = 30\<rparr>"

definition v_passing :: vehicle where
  "v_passing = \<lparr>vid = ''v1'', q_v = 0, t_v = 0, passengers = 1, trip_set = [r_far]\<rparr>"

text \<open>
  Two requests placed at time 0 with a waiting time of 60 and an allowed delay of 60: the
  first from node 40 to node 0, the second from node 50 to node 140.
\<close>

definition r_west :: request where
  "r_west = \<lparr>rid = ''r1'', o_r = 40, d_r = 0, t_pl = 60, t_star = 40\<rparr>"

definition r_east :: request where
  "r_east = \<lparr>rid = ''r2'', o_r = 50, d_r = 140, t_pl = 60, t_star = 90\<rparr>"

text \<open>
  Four requests on the line road with origins at the nodes 10, 11, 8 and 3, each a ride of
  20 to the east, with deadlines wide enough for every pair to be compatible.
\<close>

definition q1 :: request where
  "q1 = \<lparr>rid = ''r1'', o_r = 10, d_r = 30, t_pl = 1000, t_star = 20\<rparr>"

definition q2 :: request where
  "q2 = \<lparr>rid = ''r2'', o_r = 11, d_r = 31, t_pl = 1000, t_star = 20\<rparr>"

definition q3 :: request where
  "q3 = \<lparr>rid = ''r3'', o_r = 8, d_r = 28, t_pl = 1000, t_star = 20\<rparr>"

definition q4 :: request where
  "q4 = \<lparr>rid = ''r4'', o_r = 3, d_r = 23, t_pl = 1000, t_star = 20\<rparr>"

text \<open>An empty vehicle at node 0 that can serve two riders.\<close>

definition v_empty :: vehicle where
  "v_empty = \<lparr>vid = ''v1'', q_v = 0, t_v = 0, passengers = 0, trip_set = []\<rparr>"

text \<open>
  An RTV graph with two vehicles, two requests and three trips: \<open>t1\<close> serves \<open>r1\<close>,
  \<open>t2\<close> serves both requests and \<open>t3\<close> serves \<open>r2\<close>. Vehicle \<open>v1\<close> can drive
  \<open>t1\<close> at cost 10, \<open>t2\<close> at cost 16 and \<open>t3\<close> at cost 9; vehicle \<open>v2\<close> can drive
  \<open>t1\<close> at cost 4.
\<close>

definition rtv_demo :: rtv_graph where
  "rtv_demo =
     \<lparr>rtv_nodes = [''r1'', ''r2'', ''v1'', ''v2'', ''t1'', ''t2'', ''t3''],
      rtv_node = map_of
        [(''r1'', \<lparr>node_type = type_request, node_requests = {}\<rparr>),
         (''r2'', \<lparr>node_type = type_request, node_requests = {}\<rparr>),
         (''v1'', \<lparr>node_type = type_vehicle, node_requests = {}\<rparr>),
         (''v2'', \<lparr>node_type = type_vehicle, node_requests = {}\<rparr>),
         (''t1'', \<lparr>node_type = type_trip, node_requests = {''r1''}\<rparr>),
         (''t2'', \<lparr>node_type = type_trip, node_requests = {''r1'', ''r2''}\<rparr>),
         (''t3'', \<lparr>node_type = type_trip, node_requests = {''r2''}\<rparr>)],
      rtv_adj = (\<lambda>n. case map_of
        [(''r1'', [''t1'', ''t2'']),
         (''r2'', [''t2'', ''t3'']),
         (''v1'', [''t1'', ''t2'', ''t3'']),
         (''v2'', [''t1'']),
         (''t1'', [''r1'', ''v1'', ''v2'']),
         (''t2'', [''r1'', ''r2'', ''v1'']),
         (''t3'', [''r2'', ''v1''])] n of None \<Rightarrow> [] | Some ns \<Rightarrow> ns),
      rtv_travel_time = (\<lambda>a b. map_of
        [((''v1'', ''t1''), 10), ((''t1'', ''v1''), 10),
         ((''v1'', ''t2''), 16), ((''t2'', ''v1''), 16),
         ((''v1'', ''t3''), 9), ((''t3'', ''v1''), 9),
         ((''v2'', ''t1''), 4), ((''t1'', ''v2''), 4)] (a, b))\<rparr>"

definition v_second :: vehicle where
  "v_second = \<lparr>vid = ''v2'', q_v = 5, t_v = 0, passengers = 0, trip_set = []\<rparr>"

text \<open>
  A solution of the program of that graph for the requests \<open>r1\<close> and \<open>r2\<close>: vehicle
  \<open>v1\<close> drives \<open>t3\<close>, vehicle \<open>v2\<close> drives \<open>t1\<close>, and no request is left unserved.
\<close>

definition demo_solution :: "var \<Rightarrow> real" where
  "demo_solution y = (if y = Eps ''t3'' ''v1'' \<or> y = Eps ''t1'' ''v2'' then 1 else 0)"

definition demo_solver :: "ilp \<Rightarrow> var list \<Rightarrow> (var \<Rightarrow> real) option" where
  "demo_solver m start = Some demo_solution"




text \<open>
  Two requests far apart on the line road: the first from node 0 to node 10, the second
  from node 100 to node 110, to be dropped off by 30 and by 120 when \<open>max_delay = 20\<close>.
\<close>

definition r_here :: request where
  "r_here = \<lparr>rid = ''r1'', o_r = 0, d_r = 10, t_pl = 1000, t_star = 10\<rparr>"

definition r_there :: request where
  "r_there = \<lparr>rid = ''r2'', o_r = 100, d_r = 110, t_pl = 1000, t_star = 100\<rparr>"

section \<open>Properties of the building blocks\<close>

subsection \<open>Permutations and the search loop\<close>

lemma picks_mset: "(y, ys) \<in> set (picks xs) \<Longrightarrow> mset xs = add_mset y (mset ys)"
  by (induction xs arbitrary: y ys) auto

lemma perms_of_length_mset:
  "p \<in> set (perms_of_length (length xs) xs) \<Longrightarrow> mset p = mset xs"
proof (induction "length xs" arbitrary: xs p)
  case 0
  then show ?case by simp
next
  case (Suc n)
  from Suc.hyps(2) Suc.prems obtain y ys q
    where pk: "(y, ys) \<in> set (picks xs)" and q: "q \<in> set (perms_of_length n ys)" and p: "p = y # q"
    by (auto simp: Suc.hyps(2)[symmetric])
  from picks_mset[OF pk] have m: "mset xs = add_mset y (mset ys)" .
  then have "length xs = Suc (length ys)"
    by (metis size_mset size_add_mset)
  with Suc.hyps(2) have "n = length ys" by simp
  with Suc.hyps(1) q have "mset q = mset ys" by blast
  with m p show ?case by simp
qed

lemma permutations_mset: "p \<in> set (permutations xs) \<Longrightarrow> mset p = mset xs"
  by (simp add: permutations_def perms_of_length_mset)

lemma shortest_over_result:
  "shortest_over graph max_delay v best orders = (Some p, c) \<Longrightarrow>
     best = (Some p, c)
     \<or> (p \<in> set orders \<and> (\<exists>t. simulate graph max_delay (q_v v) (t_v v) 0 p = Some t \<and> c = Finite t))"
proof (induction orders arbitrary: best)
  case Nil
  then show ?case by simp
next
  case (Cons a orders)
  show ?case
  proof (cases "simulate graph max_delay (q_v v) (t_v v) 0 a")
    case None
    with Cons.prems
    have "shortest_over graph max_delay v best orders = (Some p, c)" by simp
    from Cons.IH[OF this] show ?thesis by auto
  next
    case (Some t)
    show ?thesis
    proof (cases "cost_less t (snd best)")
      case True
      with Some Cons.prems
      have "shortest_over graph max_delay v (Some a, Finite t) orders = (Some p, c)" by simp
      from Cons.IH[OF this] Some show ?thesis by auto
    next
      case False
      with Some Cons.prems
      have "shortest_over graph max_delay v best orders = (Some p, c)" by simp
      from Cons.IH[OF this] show ?thesis by auto
    qed
  qed
qed

lemma travel_StopSeq:
  assumes "travel v new_requests graph max_capacity max_delay = (StopSeq seq, c)"
  shows "new_requests \<noteq> []
    \<and> is_valid_permutation v new_requests max_capacity seq
    \<and> seq \<in> set (permutations (stops_of v new_requests))
    \<and> (\<exists>t. simulate graph max_delay (q_v v) (t_v v) 0 seq = Some t \<and> c = Finite t)"
proof -
  let ?orders = "filter (is_valid_permutation v new_requests max_capacity)
                   (permutations (stops_of v new_requests))"
  from assms have ne: "new_requests \<noteq> []"
    by (auto simp: travel_def split: if_splits)
  obtain st sc where so: "shortest_over graph max_delay v (None, Infinity) ?orders = (st, sc)"
    by (cases "shortest_over graph max_delay v (None, Infinity) ?orders")
  with assms ne have "st = Some seq \<and> sc = c"
    by (auto simp: travel_def split: option.splits list.splits)
  with so have "shortest_over graph max_delay v (None, Infinity) ?orders = (Some seq, c)" by simp
  from shortest_over_result[OF this] ne show ?thesis by auto
qed


lemma dropoffs_in_Cons:
  "dropoffs_in (s # ss) = (if stop_type s = dropoff then 1 else 0) + dropoffs_in ss"
  by (simp add: dropoffs_in_def)

lemma pickups_in_Cons:
  "pickups_in (s # ss) = (if stop_type s = pickup then 1 else 0) + pickups_in ss"
  by (simp add: pickups_in_def)

lemma dropoffs_in_Nil: "dropoffs_in [] = 0"
  by (simp add: dropoffs_in_def)

lemma pickups_in_Nil: "pickups_in [] = 0"
  by (simp add: pickups_in_def)

lemma stop_type_cases: "stop_type s = pickup \<or> stop_type s = dropoff"
  by (cases "stop_type s") auto

text \<open>At each pickup the loaded-vehicle loop has seen the required drop-offs.\<close>

lemma valid_loaded_vehicle_min_dropoffs:
  "valid_loaded_vehicle n m seen d p ss \<Longrightarrow> i < length ss \<Longrightarrow> stop_type (ss ! i) = pickup
     \<Longrightarrow> m \<le> d + dropoffs_in (take i ss)"
proof (induction ss arbitrary: seen d p i)
  case Nil
  then show ?case by simp
next
  case (Cons s ss)
  show ?case
  proof (cases i)
    case 0
    with Cons.prems show ?thesis
      by (simp add: dropoffs_in_Nil split: if_splits)
  next
    case (Suc k)
    show ?thesis
    proof (cases "stop_type s")
      case pickup
      with Cons.prems Suc
      have "valid_loaded_vehicle n m (insert (rid (stop_request s)) seen) d (p + 1) ss"
        by (simp split: if_splits)
      from Cons.IH[OF this, of k] Cons.prems Suc pickup show ?thesis
        by (simp add: dropoffs_in_Cons)
    next
      case dropoff
      with Cons.prems Suc
      have "valid_loaded_vehicle n m seen (d + 1) p ss"
        by (simp split: if_splits)
      from Cons.IH[OF this, of k] Cons.prems Suc dropoff show ?thesis
        by (simp add: dropoffs_in_Cons)
    qed
  qed
qed

text \<open>The loaded-vehicle loop keeps \<open>pickups_made \<le> dropoffs_made + n\<close> at every prefix.\<close>

lemma valid_loaded_vehicle_prefix:
  "valid_loaded_vehicle n m seen d p ss \<Longrightarrow> p \<le> d + n
     \<Longrightarrow> p + pickups_in (take k ss) \<le> d + dropoffs_in (take k ss) + n"
proof (induction ss arbitrary: seen d p k)
  case Nil
  then show ?case by (simp add: dropoffs_in_Nil pickups_in_Nil)
next
  case (Cons s ss)
  show ?case
  proof (cases k)
    case 0
    with Cons.prems show ?thesis by (simp add: dropoffs_in_Nil pickups_in_Nil)
  next
    case (Suc j)
    show ?thesis
    proof (cases "stop_type s")
      case pickup
      with Cons.prems
      have v: "valid_loaded_vehicle n m (insert (rid (stop_request s)) seen) d (p + 1) ss"
        and b: "p + 1 \<le> d + n"
        by (simp_all split: if_splits)
      from Cons.IH[OF v b, of j] Suc pickup show ?thesis
        by (simp add: dropoffs_in_Cons pickups_in_Cons)
    next
      case dropoff
      with Cons.prems
      have v: "valid_loaded_vehicle n m seen (d + 1) p ss" and b: "p \<le> (d + 1) + n"
        by (simp_all split: if_splits)
      from Cons.IH[OF v b, of j] Suc dropoff show ?thesis
        by (simp add: dropoffs_in_Cons pickups_in_Cons)
    qed
  qed
qed

text \<open>The empty-vehicle loop keeps \<open>pickups_made \<le> dropoffs_made + max_capacity\<close>.\<close>

lemma valid_empty_vehicle_prefix:
  "valid_empty_vehicle cap seen d p ss \<Longrightarrow> p \<le> d + cap
     \<Longrightarrow> p + pickups_in (take k ss) \<le> d + dropoffs_in (take k ss) + cap"
proof (induction ss arbitrary: seen d p k)
  case Nil
  then show ?case by (simp add: dropoffs_in_Nil pickups_in_Nil)
next
  case (Cons s ss)
  show ?case
  proof (cases k)
    case 0
    with Cons.prems show ?thesis by (simp add: dropoffs_in_Nil pickups_in_Nil)
  next
    case (Suc j)
    show ?thesis
    proof (cases "stop_type s")
      case pickup
      with Cons.prems
      have v: "valid_empty_vehicle cap (insert (rid (stop_request s)) seen) d (p + 1) ss"
        and b: "p + 1 \<le> d + cap"
        by (simp_all split: if_splits)
      from Cons.IH[OF v b, of j] Suc pickup show ?thesis
        by (simp add: dropoffs_in_Cons pickups_in_Cons)
    next
      case dropoff
      with Cons.prems
      have v: "valid_empty_vehicle cap seen (d + 1) p ss" and b: "p \<le> (d + 1) + cap"
        by (simp_all split: if_splits)
      from Cons.IH[OF v b, of j] Suc dropoff show ?thesis
        by (simp add: dropoffs_in_Cons pickups_in_Cons)
    qed
  qed
qed

text \<open>A drop-off accepted by either loop belongs to a request seen before.\<close>

lemma valid_loaded_vehicle_seen:
  "valid_loaded_vehicle n m seen d p ss \<Longrightarrow> j < length ss \<Longrightarrow> stop_type (ss ! j) = dropoff
     \<Longrightarrow> rid (stop_request (ss ! j)) \<in> seen
         \<or> (\<exists>i<j. stop_type (ss ! i) = pickup
                \<and> rid (stop_request (ss ! i)) = rid (stop_request (ss ! j)))"
proof (induction ss arbitrary: seen d p j)
  case Nil
  then show ?case by simp
next
  case (Cons s ss)
  show ?case
  proof (cases j)
    case 0
    with Cons.prems show ?thesis by (simp split: if_splits)
  next
    case (Suc k)
    show ?thesis
    proof (cases "stop_type s")
      case pickup
      with Cons.prems
      have v: "valid_loaded_vehicle n m (insert (rid (stop_request s)) seen) d (p + 1) ss"
        by (simp split: if_splits)
      from Cons.prems Suc have k: "k < length ss" "stop_type (ss ! k) = dropoff" by simp_all
      from Cons.IH[OF v k]
      consider "rid (stop_request (ss ! k)) = rid (stop_request s)"
        | "rid (stop_request (ss ! k)) \<in> seen"
        | i where "i < k" "stop_type (ss ! i) = pickup"
            "rid (stop_request (ss ! i)) = rid (stop_request (ss ! k))"
        by auto
      then show ?thesis
      proof cases
        case 1
        with pickup Suc have "0 < j \<and> stop_type ((s # ss) ! 0) = pickup
          \<and> rid (stop_request ((s # ss) ! 0)) = rid (stop_request ((s # ss) ! j))" by simp
        then show ?thesis by blast
      next
        case 2
        with Suc show ?thesis by simp
      next
        case 3
        with Suc have "Suc i < j \<and> stop_type ((s # ss) ! Suc i) = pickup
          \<and> rid (stop_request ((s # ss) ! Suc i)) = rid (stop_request ((s # ss) ! j))" by simp
        then show ?thesis by blast
      qed
    next
      case dropoff
      with Cons.prems
      have v: "valid_loaded_vehicle n m seen (d + 1) p ss"
        by (simp split: if_splits)
      from Cons.prems Suc have k: "k < length ss" "stop_type (ss ! k) = dropoff" by simp_all
      from Cons.IH[OF v k]
      consider "rid (stop_request (ss ! k)) \<in> seen"
        | i where "i < k" "stop_type (ss ! i) = pickup"
            "rid (stop_request (ss ! i)) = rid (stop_request (ss ! k))"
        by auto
      then show ?thesis
      proof cases
        case 1
        with Suc show ?thesis by simp
      next
        case 2
        with Suc have "Suc i < j \<and> stop_type ((s # ss) ! Suc i) = pickup
          \<and> rid (stop_request ((s # ss) ! Suc i)) = rid (stop_request ((s # ss) ! j))" by simp
        then show ?thesis by blast
      qed
    qed
  qed
qed

lemma valid_empty_vehicle_seen:
  "valid_empty_vehicle cap seen d p ss \<Longrightarrow> j < length ss \<Longrightarrow> stop_type (ss ! j) = dropoff
     \<Longrightarrow> rid (stop_request (ss ! j)) \<in> seen
         \<or> (\<exists>i<j. stop_type (ss ! i) = pickup
                \<and> rid (stop_request (ss ! i)) = rid (stop_request (ss ! j)))"
proof (induction ss arbitrary: seen d p j)
  case Nil
  then show ?case by simp
next
  case (Cons s ss)
  show ?case
  proof (cases j)
    case 0
    with Cons.prems show ?thesis by (simp split: if_splits)
  next
    case (Suc k)
    show ?thesis
    proof (cases "stop_type s")
      case pickup
      with Cons.prems
      have v: "valid_empty_vehicle cap (insert (rid (stop_request s)) seen) d (p + 1) ss"
        by (simp split: if_splits)
      from Cons.prems Suc have k: "k < length ss" "stop_type (ss ! k) = dropoff" by simp_all
      from Cons.IH[OF v k]
      consider "rid (stop_request (ss ! k)) = rid (stop_request s)"
        | "rid (stop_request (ss ! k)) \<in> seen"
        | i where "i < k" "stop_type (ss ! i) = pickup"
            "rid (stop_request (ss ! i)) = rid (stop_request (ss ! k))"
        by auto
      then show ?thesis
      proof cases
        case 1
        with pickup Suc have "0 < j \<and> stop_type ((s # ss) ! 0) = pickup
          \<and> rid (stop_request ((s # ss) ! 0)) = rid (stop_request ((s # ss) ! j))" by simp
        then show ?thesis by blast
      next
        case 2
        with Suc show ?thesis by simp
      next
        case 3
        with Suc have "Suc i < j \<and> stop_type ((s # ss) ! Suc i) = pickup
          \<and> rid (stop_request ((s # ss) ! Suc i)) = rid (stop_request ((s # ss) ! j))" by simp
        then show ?thesis by blast
      qed
    next
      case dropoff
      with Cons.prems
      have v: "valid_empty_vehicle cap seen (d + 1) p ss"
        by (simp split: if_splits)
      from Cons.prems Suc have k: "k < length ss" "stop_type (ss ! k) = dropoff" by simp_all
      from Cons.IH[OF v k]
      consider "rid (stop_request (ss ! k)) \<in> seen"
        | i where "i < k" "stop_type (ss ! i) = pickup"
            "rid (stop_request (ss ! i)) = rid (stop_request (ss ! k))"
        by auto
      then show ?thesis
      proof cases
        case 1
        with Suc show ?thesis by simp
      next
        case 2
        with Suc have "Suc i < j \<and> stop_type ((s # ss) ! Suc i) = pickup
          \<and> rid (stop_request ((s # ss) ! Suc i)) = rid (stop_request ((s # ss) ! j))" by simp
        then show ?thesis by blast
      qed
    qed
  qed
qed

text \<open>A stop order that the simulation accepts meets every deadline on the way.\<close>

lemma simulate_deadlines:
  "simulate graph max_delay pos t c ss = Some c' \<Longrightarrow> i < length ss
     \<Longrightarrow> \<exists>a. arrival_time graph pos t (take (Suc i) ss) = Some a
            \<and> (stop_type (ss ! i) = pickup \<longrightarrow> a \<le> t_pl (stop_request (ss ! i)))
            \<and> (stop_type (ss ! i) = dropoff \<longrightarrow> a \<le> t_star (stop_request (ss ! i)) + max_delay)"
proof (induction ss arbitrary: pos t c i)
  case Nil
  then show ?case by simp
next
  case (Cons s ss)
  from Cons.prems(1) obtain tt where tt: "graph pos (stop_node s) = Some tt"
    by (auto split: option.splits)
  with Cons.prems(1)
  have pk: "stop_type s = pickup \<longrightarrow> t + tt \<le> t_pl (stop_request s)"
    and dr: "stop_type s = dropoff \<longrightarrow> t + tt \<le> t_star (stop_request s) + max_delay"
    and rest: "simulate graph max_delay (stop_node s) (t + tt) (c + tt) ss = Some c'"
    by (auto split: if_splits)
  show ?case
  proof (cases i)
    case 0
    with tt pk dr show ?thesis by simp
  next
    case (Suc k)
    with Cons.prems(2) have "k < length ss" by simp
    from Cons.IH[OF rest this] Suc tt show ?thesis by simp
  qed
qed

lemma simulate_cost:
  "simulate graph max_delay pos t c ss = Some c'
     \<Longrightarrow> arrival_time graph pos t ss = Some (t + (c' - c))"
proof (induction ss arbitrary: pos t c)
  case Nil
  then show ?case by simp
next
  case (Cons s ss)
  from Cons.prems obtain tt where tt: "graph pos (stop_node s) = Some tt"
    by (auto split: option.splits)
  with Cons.prems
  have rest: "simulate graph max_delay (stop_node s) (t + tt) (c + tt) ss = Some c'"
    by (auto split: if_splits)
  from Cons.IH[OF rest] tt show ?case by (simp add: algebra_simps)
qed


lemma stops_of_pickup:
  "s \<in> set (stops_of v N) \<Longrightarrow> stop_type s = pickup \<Longrightarrow> \<exists>r\<in>set N. s = pickup_stop r"
  by (auto simp: stops_of_def pickup_stop_def)

lemma stops_of_new:
  "r \<in> set N \<Longrightarrow> pickup_stop r \<in> set (stops_of v N) \<and> dropoff_stop r \<in> set (stops_of v N)"
  by (auto simp: stops_of_def pickup_stop_def dropoff_stop_def)

lemma stops_of_distinct:
  assumes "distinct (map rid (trip_set v @ N))"
  shows "distinct (stops_of v N)"
proof -
  from assms have d: "distinct (trip_set v)" "distinct N" "set (trip_set v) \<inter> set N = {}"
    by (auto simp: distinct_map)
  have i1: "inj_on (\<lambda>r. \<lparr>stop_type = dropoff, stop_node = d_r r, stop_request = r\<rparr>) A" for A
    by (rule inj_onI) simp
  have i2: "inj_on (\<lambda>r. \<lparr>stop_type = pickup, stop_node = o_r r, stop_request = r\<rparr>) A" for A
    by (rule inj_onI) simp
  from d show ?thesis
    unfolding stops_of_def
    by (auto simp: distinct_map i1 i2)
qed



section \<open>Properties of the trip feasibility oracle\<close>

subsection \<open>The scenarios, evaluated\<close>

lemma travel_v_loaded_capacity_1:
  "travel v_loaded [r_new] line_road 1 60
     = (StopSeq [dropoff_stop r_onboard, pickup_stop r_new, dropoff_stop r_new], Finite 120)"
  by (simp add: travel_def permutations_def stops_of_def is_valid_permutation_def
      min_dropoffs_before_new_pickups_def v_loaded_def r_onboard_def r_new_def line_road_def
      pickup_stop_def dropoff_stop_def)

lemma travel_v_loaded_capacity_2:
  "travel v_loaded [r_new] line_road 2 60
     = (StopSeq [dropoff_stop r_onboard, pickup_stop r_new, dropoff_stop r_new], Finite 120)"
  by (simp add: travel_def permutations_def stops_of_def is_valid_permutation_def
      min_dropoffs_before_new_pickups_def v_loaded_def r_onboard_def r_new_def line_road_def
      pickup_stop_def dropoff_stop_def)

subsection \<open>Empty request set\<close>

text \<open>
  Claim C7. Called with no new request, \<open>travel\<close> returns \<^verbatim>\<open>(None, inf)\<close> for a vehicle
  whose \<^verbatim>\<open>trip_set\<close> is empty, and the vehicle's \<^verbatim>\<open>trip_set\<close> itself with cost 0
  for a vehicle that carries passengers. Both are ordinary results: the code reads nothing
  that can raise on this path, and the model has no error branch there.
\<close>

theorem travel_no_new_requests:
  "travel (v\<lparr>trip_set := []\<rparr>) [] graph max_capacity max_delay = (NoTrip, Infinity)
   \<and> travel (v\<lparr>trip_set := r # rs\<rparr>) [] graph max_capacity max_delay
       = (TripSet (r # rs), Finite 0)"
  by (simp add: travel_def)

theorem travel_no_new_requests_witness:
  "travel (v_loaded\<lparr>trip_set := []\<rparr>) [] line_road 2 60 = (NoTrip, Infinity)
   \<and> travel v_loaded [] line_road 2 60 = (TripSet [r_onboard], Finite 0)"
  using travel_no_new_requests [of v_loaded line_road 2 60 r_onboard "[]"]
  by (simp add: v_loaded_def)

subsection \<open>Required drop-offs before new pickups\<close>

text \<open>
  Claim C4. For a vehicle with passengers and a nonempty set of new requests, in every
  stop sequence that \<open>travel\<close> returns, each pickup is preceded by at least
  \<open>max(0, |N| - capacity + |O|)\<close> drop-offs.
\<close>

theorem travel_pickups_wait_for_required_dropoffs:
  assumes "trip_set v \<noteq> []" and "new_requests \<noteq> []"
    and "travel v new_requests graph max_capacity max_delay = (StopSeq seq, c)"
    and "i < length seq" and "stop_type (seq ! i) = pickup"
  shows "max 0 (int (length new_requests) - max_capacity + int (length (trip_set v)))
           \<le> dropoffs_in (take i seq)"
proof -
  from travel_StopSeq[OF assms(3)]
  have "is_valid_permutation v new_requests max_capacity seq" by simp
  with assms(1)
  have "valid_loaded_vehicle (int (length (trip_set v)))
          (min_dropoffs_before_new_pickups v new_requests max_capacity)
          (set (map rid (trip_set v))) 0 (int (length (trip_set v))) seq"
    by (simp add: is_valid_permutation_def)
  from valid_loaded_vehicle_min_dropoffs[OF this assms(4,5)]
  show ?thesis by (simp add: min_dropoffs_before_new_pickups_def)
qed

theorem travel_pickups_wait_for_required_dropoffs_witness:
  "travel v_loaded [r_new] line_road 1 60
     = (StopSeq [dropoff_stop r_onboard, pickup_stop r_new, dropoff_stop r_new], Finite 120)
   \<and> max 0 (int (length [r_new]) - 1 + int (length (trip_set v_loaded))) = 1
   \<and> 1 \<le> dropoffs_in (take 1 [dropoff_stop r_onboard, pickup_stop r_new, dropoff_stop r_new])"
proof -
  have ne: "trip_set v_loaded \<noteq> []" by (simp add: v_loaded_def)
  have "max 0 (int (length [r_new]) - 1 + int (length (trip_set v_loaded)))
          \<le> dropoffs_in (take 1 [dropoff_stop r_onboard, pickup_stop r_new, dropoff_stop r_new])"
    by (rule travel_pickups_wait_for_required_dropoffs[OF ne _ travel_v_loaded_capacity_1])
       (simp_all add: pickup_stop_def)
  moreover have "max 0 (int (length [r_new]) - 1 + int (length (trip_set v_loaded))) = 1"
    by (simp add: v_loaded_def)
  ultimately show ?thesis using travel_v_loaded_capacity_1 by simp
qed

subsection \<open>A vehicle with passengers never takes more load than it starts with\<close>

text \<open>
  Claim C10. For a vehicle with passengers, at every prefix of a stop sequence that
  \<open>travel\<close> returns the number of pickups is at most the number of drop-offs, so the load
  \<open>|O| + pickups - drop-offs\<close> never exceeds \<open>|O|\<close>, whatever the capacity is.
\<close>

theorem travel_loaded_vehicle_load_bounded_by_onboard:
  assumes "trip_set v \<noteq> []"
    and "travel v new_requests graph max_capacity max_delay = (StopSeq seq, c)"
  shows "pickups_in (take k seq) \<le> dropoffs_in (take k seq)
       \<and> int (length (trip_set v)) + pickups_in (take k seq) - dropoffs_in (take k seq)
           \<le> int (length (trip_set v))"
proof -
  from travel_StopSeq[OF assms(2)]
  have "is_valid_permutation v new_requests max_capacity seq" by simp
  with assms(1)
  have "valid_loaded_vehicle (int (length (trip_set v)))
          (min_dropoffs_before_new_pickups v new_requests max_capacity)
          (set (map rid (trip_set v))) 0 (int (length (trip_set v))) seq"
    by (simp add: is_valid_permutation_def)
  from valid_loaded_vehicle_prefix[OF this, of k]
  show ?thesis by simp
qed

theorem travel_loaded_vehicle_load_bounded_by_onboard_witness:
  "travel v_loaded [r_new] line_road 2 60
     = (StopSeq [dropoff_stop r_onboard, pickup_stop r_new, dropoff_stop r_new], Finite 120)
   \<and> pickups_in (take 2 [dropoff_stop r_onboard, pickup_stop r_new, dropoff_stop r_new])
       \<le> dropoffs_in (take 2 [dropoff_stop r_onboard, pickup_stop r_new, dropoff_stop r_new])
   \<and> int (length (trip_set v_loaded)) < 2"
proof -
  have ne: "trip_set v_loaded \<noteq> []" by (simp add: v_loaded_def)
  from travel_loaded_vehicle_load_bounded_by_onboard[OF ne travel_v_loaded_capacity_2, of 2]
    travel_v_loaded_capacity_2
  show ?thesis by (simp add: v_loaded_def)
qed

subsection \<open>Precedence and capacity\<close>

text \<open>
  Claim C5. Let the onboard and the new requests together fit the capacity,
  \<open>|O| + |N| \<le> capacity\<close>, and let the requests carry pairwise different ids, as the data
  model requires. Then in every stop sequence that \<open>travel\<close> returns, each new request has
  its pickup at a position strictly before its drop-off (and no stop occurs twice, so
  these positions are the only ones), and the load of every prefix,
  \<open>|O| + pickups - drop-offs\<close>, is at most the capacity.
\<close>

theorem travel_precedence_and_capacity:
  assumes pre: "int (length (trip_set v)) + int (length new_requests) \<le> max_capacity"
    and ids: "distinct (map rid (trip_set v @ new_requests))"
    and tr: "travel v new_requests graph max_capacity max_delay = (StopSeq seq, c)"
  shows "(\<forall>r\<in>set new_requests. \<exists>i j. i < j \<and> j < length seq
             \<and> seq ! i = pickup_stop r \<and> seq ! j = dropoff_stop r)
       \<and> distinct seq
       \<and> (\<forall>k. int (length (trip_set v)) + pickups_in (take k seq) - dropoffs_in (take k seq)
                \<le> max_capacity)"
proof -
  from travel_StopSeq[OF tr]
  have valid: "is_valid_permutation v new_requests max_capacity seq"
    and perm: "seq \<in> set (permutations (stops_of v new_requests))" by simp_all
  from permutations_mset[OF perm] have ms: "mset seq = mset (stops_of v new_requests)" .
  then have sets: "set seq = set (stops_of v new_requests)" by (rule mset_eq_setD)
  from ms stops_of_distinct[OF ids] have dseq: "distinct seq"
    by (metis mset_eq_imp_distinct_iff)
  from ids have inj: "inj_on rid (set new_requests)"
    and disj: "rid ` set (trip_set v) \<inter> rid ` set new_requests = {}"
    by (auto simp: distinct_map inj_on_def)
  have seen: "rid (stop_request (seq ! j)) \<in> set (map rid (trip_set v))
         \<or> (\<exists>i<j. stop_type (seq ! i) = pickup
                \<and> rid (stop_request (seq ! i)) = rid (stop_request (seq ! j)))"
    if "j < length seq" "stop_type (seq ! j) = dropoff" for j
  proof (cases "trip_set v = []")
    case True
    with valid have "valid_empty_vehicle max_capacity {} 0 0 seq"
      by (simp add: is_valid_permutation_def)
    from valid_empty_vehicle_seen[OF this that] show ?thesis by simp
  next
    case False
    with valid
    have "valid_loaded_vehicle (int (length (trip_set v)))
            (min_dropoffs_before_new_pickups v new_requests max_capacity)
            (set (map rid (trip_set v))) 0 (int (length (trip_set v))) seq"
      by (simp add: is_valid_permutation_def)
    from valid_loaded_vehicle_seen[OF this that] show ?thesis .
  qed
  have prec: "\<exists>i j. i < j \<and> j < length seq
             \<and> seq ! i = pickup_stop r \<and> seq ! j = dropoff_stop r"
    if r: "r \<in> set new_requests" for r
  proof -
    from stops_of_new[OF r] sets have "dropoff_stop r \<in> set seq" by simp
    then obtain j where j: "j < length seq" "seq ! j = dropoff_stop r"
      by (auto simp: in_set_conv_nth)
    then have jt: "stop_type (seq ! j) = dropoff" and jr: "stop_request (seq ! j) = r"
      by (simp_all add: dropoff_stop_def)
    from r disj have "rid r \<notin> set (map rid (trip_set v))" by auto
    with seen[OF j(1) jt] jr obtain i where i: "i < j" "stop_type (seq ! i) = pickup"
      "rid (stop_request (seq ! i)) = rid r" by auto
    from i(1) j(1) have "seq ! i \<in> set seq" by simp
    with sets stops_of_pickup[OF _ i(2)] obtain r' where r': "r' \<in> set new_requests"
      "seq ! i = pickup_stop r'" by blast
    with i(3) have "rid r' = rid r" by (simp add: pickup_stop_def)
    with inj r r' have "r' = r" by (auto dest: inj_onD)
    with r' i j show ?thesis by blast
  qed
  have cap: "int (length (trip_set v)) + pickups_in (take k seq) - dropoffs_in (take k seq)
                \<le> max_capacity" for k
  proof (cases "trip_set v = []")
    case True
    with valid have v: "valid_empty_vehicle max_capacity {} 0 0 seq"
      by (simp add: is_valid_permutation_def)
    from pre have "0 \<le> 0 + max_capacity" by simp
    from valid_empty_vehicle_prefix[OF v this, of k] True show ?thesis by simp
  next
    case False
    with valid
    have "valid_loaded_vehicle (int (length (trip_set v)))
            (min_dropoffs_before_new_pickups v new_requests max_capacity)
            (set (map rid (trip_set v))) 0 (int (length (trip_set v))) seq"
      by (simp add: is_valid_permutation_def)
    from valid_loaded_vehicle_prefix[OF this, of k] pre show ?thesis by simp
  qed
  from prec dseq cap show ?thesis by blast
qed

theorem travel_precedence_and_capacity_witness:
  "int (length (trip_set v_loaded)) + int (length [r_new]) \<le> 2
   \<and> distinct (map rid (trip_set v_loaded @ [r_new]))
   \<and> travel v_loaded [r_new] line_road 2 60
       = (StopSeq [dropoff_stop r_onboard, pickup_stop r_new, dropoff_stop r_new], Finite 120)
   \<and> (\<exists>i j. i < j \<and> j < length [dropoff_stop r_onboard, pickup_stop r_new, dropoff_stop r_new]
          \<and> [dropoff_stop r_onboard, pickup_stop r_new, dropoff_stop r_new] ! i
              = pickup_stop r_new
          \<and> [dropoff_stop r_onboard, pickup_stop r_new, dropoff_stop r_new] ! j
              = dropoff_stop r_new)"
proof -
  have pre: "int (length (trip_set v_loaded)) + int (length [r_new]) \<le> 2"
    by (simp add: v_loaded_def)
  have ids: "distinct (map rid (trip_set v_loaded @ [r_new]))"
    by (simp add: v_loaded_def r_onboard_def r_new_def)
  from travel_precedence_and_capacity[OF pre ids travel_v_loaded_capacity_2] pre ids
    travel_v_loaded_capacity_2
  show ?thesis by simp
qed

subsection \<open>Deadlines\<close>

text \<open>
  Claim C6. Driving from the vehicle's position at its clock along a stop sequence that
  \<open>travel\<close> returns, with the shortest travel time for each leg, every stop is reached
  (each leg has a path), every pickup no later than the request's latest pickup time and
  every drop-off no later than the request's earliest drop-off time plus \<open>max_delay\<close>.
\<close>

theorem travel_meets_deadlines:
  assumes "travel v new_requests graph max_capacity max_delay = (StopSeq seq, c)"
    and "i < length seq"
  shows "\<exists>a. arrival_time graph (q_v v) (t_v v) (take (Suc i) seq) = Some a
            \<and> (stop_type (seq ! i) = pickup \<longrightarrow> a \<le> t_pl (stop_request (seq ! i)))
            \<and> (stop_type (seq ! i) = dropoff
                 \<longrightarrow> a \<le> t_star (stop_request (seq ! i)) + max_delay)"
proof -
  from travel_StopSeq[OF assms(1)] obtain t
    where "simulate graph max_delay (q_v v) (t_v v) 0 seq = Some t" by blast
  from simulate_deadlines[OF this assms(2)] show ?thesis .
qed

theorem travel_meets_deadlines_witness:
  "travel v_loaded [r_new] line_road 2 60
     = (StopSeq [dropoff_stop r_onboard, pickup_stop r_new, dropoff_stop r_new], Finite 120)
   \<and> arrival_time line_road (q_v v_loaded) (t_v v_loaded)
        (take 3 [dropoff_stop r_onboard, pickup_stop r_new, dropoff_stop r_new]) = Some 120
   \<and> (120::real) \<le> t_star r_new + 60"
proof -
  have a: "arrival_time line_road (q_v v_loaded) (t_v v_loaded)
        (take 3 [dropoff_stop r_onboard, pickup_stop r_new, dropoff_stop r_new]) = Some 120"
    by (simp add: v_loaded_def line_road_def pickup_stop_def dropoff_stop_def
        r_onboard_def r_new_def)
  from travel_meets_deadlines[OF travel_v_loaded_capacity_2, of 2] a travel_v_loaded_capacity_2
  show ?thesis by (simp add: dropoff_stop_def numeral_3_eq_3)
qed

subsection \<open>Optimality\<close>

lemma picks_complete:
  "y \<in> set xs \<Longrightarrow> \<exists>ys. (y, ys) \<in> set (picks xs)"
proof (induction xs)
  case Nil
  then show ?case by simp
next
  case (Cons x xs)
  show ?case
  proof (cases "y = x")
    case True
    then show ?thesis by auto
  next
    case False
    with Cons.prems have "y \<in> set xs" by simp
    from Cons.IH[OF this] obtain ys where "(y, ys) \<in> set (picks xs)" by blast
    then have "(y, x # ys) \<in> set (picks (x # xs))" by force
    then show ?thesis by blast
  qed
qed

lemma perms_of_length_complete:
  "mset p = mset xs \<Longrightarrow> p \<in> set (perms_of_length (length xs) xs)"
proof (induction p arbitrary: xs)
  case Nil
  then show ?case by simp
next
  case (Cons y q)
  then have "y \<in> set xs" by (metis list.set_intros(1) mset_eq_setD)
  from picks_complete[OF this] obtain ys where pk: "(y, ys) \<in> set (picks xs)" by blast
  from picks_mset[OF pk] have m: "mset xs = add_mset y (mset ys)" .
  with Cons.prems have "mset q = mset ys" by simp
  from Cons.IH[OF this] have q: "q \<in> set (perms_of_length (length ys) ys)" .
  from m have "length xs = Suc (length ys)" by (metis size_mset size_add_mset)
  with pk q show ?case by force
qed

lemma permutations_complete: "mset p = mset xs \<Longrightarrow> p \<in> set (permutations xs)"
  by (simp add: permutations_def perms_of_length_complete)

lemma shortest_over_least:
  "shortest_over graph max_delay v best orders = res \<Longrightarrow>
     (\<forall>t. cost_less t (snd res) \<longrightarrow> cost_less t (snd best))
     \<and> (\<forall>p\<in>set orders. \<forall>t. simulate graph max_delay (q_v v) (t_v v) 0 p = Some t
            \<longrightarrow> \<not> cost_less t (snd res))"
proof (induction orders arbitrary: best)
  case Nil
  then show ?case by simp
next
  case (Cons a orders)
  show ?case
  proof (cases "simulate graph max_delay (q_v v) (t_v v) 0 a")
    case None
    with Cons.prems have "shortest_over graph max_delay v best orders = res" by simp
    from Cons.IH[OF this] None show ?thesis by simp
  next
    case (Some t)
    show ?thesis
    proof (cases "cost_less t (snd best)")
      case True
      with Some Cons.prems
      have "shortest_over graph max_delay v (Some a, Finite t) orders = res" by simp
      from Cons.IH[OF this]
      have 1: "\<forall>t'. cost_less t' (snd res) \<longrightarrow> t' < t"
        and 2: "\<forall>p\<in>set orders. \<forall>t. simulate graph max_delay (q_v v) (t_v v) 0 p = Some t
            \<longrightarrow> \<not> cost_less t (snd res)" by simp_all
      from 1 have a: "\<not> cost_less t (snd res)" by auto
      have "cost_less t' (snd best)" if "cost_less t' (snd res)" for t'
      proof -
        from 1 that have "t' < t" by simp
        with True show ?thesis by (cases "snd best") auto
      qed
      with a 2 Some show ?thesis by simp
    next
      case False
      with Some Cons.prems have "shortest_over graph max_delay v best orders = res" by simp
      from Cons.IH[OF this]
      have 1: "\<forall>t'. cost_less t' (snd res) \<longrightarrow> cost_less t' (snd best)"
        and 2: "\<forall>p\<in>set orders. \<forall>t. simulate graph max_delay (q_v v) (t_v v) 0 p = Some t
            \<longrightarrow> \<not> cost_less t (snd res)" by simp_all
      from 1 False have "\<not> cost_less t (snd res)" by blast
      with 1 2 Some show ?thesis by simp
    qed
  qed
qed

lemma shortest_over_keeps:
  "fst best \<noteq> None \<Longrightarrow> fst (shortest_over graph max_delay v best orders) \<noteq> None"
proof (induction orders arbitrary: best)
  case Nil
  then show ?case by simp
next
  case (Cons a orders)
  show ?case
  proof (cases "simulate graph max_delay (q_v v) (t_v v) 0 a")
    case None
    with Cons show ?thesis by simp
  next
    case (Some t)
    have "fst (Some a, Finite t) \<noteq> None" by simp
    from Cons.IH[OF this] Cons.IH[OF Cons.prems] Some show ?thesis by simp
  qed
qed

lemma shortest_over_found:
  "shortest_over graph max_delay v best orders = res \<Longrightarrow> p \<in> set orders
     \<Longrightarrow> simulate graph max_delay (q_v v) (t_v v) 0 p = Some t
     \<Longrightarrow> (fst best = None \<longrightarrow> snd best = Infinity)
     \<Longrightarrow> \<exists>q. fst res = Some q"
proof (induction orders arbitrary: best)
  case Nil
  then show ?case by simp
next
  case (Cons a orders)
  have keep: "\<exists>q. fst res = Some q"
    if "shortest_over graph max_delay v b orders = res" "fst b \<noteq> None" for b
    using shortest_over_keeps[OF that(2), of graph max_delay v orders] that(1) by auto
  show ?case
  proof (cases "simulate graph max_delay (q_v v) (t_v v) 0 a")
    case None
    with Cons.prems have r: "shortest_over graph max_delay v best orders = res"
      and "p \<in> set orders" by auto
    from Cons.IH[OF r this(2) Cons.prems(3,4)] show ?thesis .
  next
    case (Some ta)
    show ?thesis
    proof (cases "cost_less ta (snd best)")
      case True
      with Some Cons.prems(1)
      have "shortest_over graph max_delay v (Some a, Finite ta) orders = res" by simp
      from keep[OF this] show ?thesis by simp
    next
      case False
      with Some Cons.prems(1) have r: "shortest_over graph max_delay v best orders = res"
        by simp
      from False have "snd best \<noteq> Infinity" by auto
      with Cons.prems(4) have "fst best \<noteq> None" by blast
      from keep[OF r this] show ?thesis .
    qed
  qed
qed


text \<open>
  What \<open>travel\<close> does achieve: its result is a cheapest order among the orders of the
  stops that \<open>is_valid_permutation\<close> accepts and that the simulation runs through, and
  it reports no trip exactly when there is no such order.
\<close>

lemma travel_least_among_accepted:
  assumes ne: "new_requests \<noteq> []"
    and p: "mset p = mset (stops_of v new_requests)"
    and ok: "is_valid_permutation v new_requests max_capacity p"
    and sim: "simulate graph max_delay (q_v v) (t_v v) 0 p = Some t"
  shows "\<exists>seq c. travel v new_requests graph max_capacity max_delay = (StopSeq seq, Finite c)
           \<and> c \<le> t"
proof -
  let ?orders = "filter (is_valid_permutation v new_requests max_capacity)
                   (permutations (stops_of v new_requests))"
  obtain st sc where res: "shortest_over graph max_delay v (None, Infinity) ?orders = (st, sc)"
    by (cases "shortest_over graph max_delay v (None, Infinity) ?orders")
  from p ok have mem: "p \<in> set ?orders" by (simp add: permutations_complete)
  from shortest_over_found[OF res mem sim] obtain q where st: "st = Some q" by auto
  from shortest_over_result[of graph max_delay v "(None, Infinity)" ?orders q sc] res st
  obtain c where q: "q \<in> set ?orders" and c: "sc = Finite c" by auto
  from q have "mset q = mset (stops_of v new_requests)" by (simp add: permutations_mset)
  with ne have "q \<noteq> []" by (auto simp: stops_of_def)
  then obtain s ss where qs: "q = s # ss" by (cases q) auto
  from shortest_over_least[OF res] mem sim c have "c \<le> t" by auto
  moreover from ne res st c qs
  have "travel v new_requests graph max_capacity max_delay = (StopSeq q, Finite c)"
    by (simp add: travel_def)
  ultimately show ?thesis by blast
qed

lemma travel_no_accepted_order:
  assumes ne: "new_requests \<noteq> []"
    and none: "\<forall>p. mset p = mset (stops_of v new_requests)
                 \<and> is_valid_permutation v new_requests max_capacity p
                 \<longrightarrow> simulate graph max_delay (q_v v) (t_v v) 0 p = None"
  shows "travel v new_requests graph max_capacity max_delay = (NoTrip, Infinity)"
proof -
  let ?orders = "filter (is_valid_permutation v new_requests max_capacity)
                   (permutations (stops_of v new_requests))"
  obtain st sc where res: "shortest_over graph max_delay v (None, Infinity) ?orders = (st, sc)"
    by (cases "shortest_over graph max_delay v (None, Infinity) ?orders")
  have "st = None"
  proof (cases st)
    case None
    then show ?thesis .
  next
    case (Some q)
    from shortest_over_result[of graph max_delay v "(None, Infinity)" ?orders q sc] res Some
    obtain t where "q \<in> set ?orders" "simulate graph max_delay (q_v v) (t_v v) 0 q = Some t"
      by auto
    with none show ?thesis by (auto simp: permutations_mset)
  qed
  with ne res show ?thesis by (simp add: travel_def)
qed

lemma travel_v_passing:
  "travel v_passing [r_near] line_road 2 300
     = (StopSeq [dropoff_stop r_far, pickup_stop r_near, dropoff_stop r_near], Finite 210)"
  by (simp add: travel_def permutations_def stops_of_def is_valid_permutation_def
      min_dropoffs_before_new_pickups_def v_passing_def r_far_def r_near_def line_road_def
      pickup_stop_def dropoff_stop_def)

lemma feasible_v_passing:
  "feasible_order v_passing [r_near] line_road 2 300
     [pickup_stop r_near, dropoff_stop r_near, dropoff_stop r_far]"
proof -
  let ?seq = "[pickup_stop r_near, dropoff_stop r_near, dropoff_stop r_far]"
  have cover: "mset ?seq = mset (stops_of v_passing [r_near])"
    by (simp add: stops_of_def v_passing_def pickup_stop_def dropoff_stop_def)
  have "(0::nat) < 1 \<and> 1 < length ?seq \<and> ?seq ! 0 = pickup_stop r_near
          \<and> ?seq ! 1 = dropoff_stop r_near" by simp
  then have prec: "\<exists>i j. i < j \<and> j < length ?seq \<and> ?seq ! i = pickup_stop r_near
          \<and> ?seq ! j = dropoff_stop r_near" by blast
  have len: "length ?seq = 3" by simp
  have idx: "i < 3 \<longleftrightarrow> i = 0 \<or> i = 1 \<or> i = 2" for i :: nat by auto
  have idxle: "k \<le> 3 \<longleftrightarrow> k = 0 \<or> k = 1 \<or> k = 2 \<or> k = 3" for k :: nat by auto
  have load: "\<forall>k\<le>length ?seq.
      int (length (trip_set v_passing)) + pickups_in (take k ?seq) - dropoffs_in (take k ?seq) \<le> 2"
    unfolding len idxle
    by (auto simp: v_passing_def pickups_in_def dropoffs_in_def pickup_stop_def dropoff_stop_def
        numeral_2_eq_2 numeral_3_eq_3)
  have first: "\<forall>i<length ?seq. stop_type (?seq ! i) = pickup \<longrightarrow>
      max 0 (int (length [r_near]) - 2 + int (length (trip_set v_passing)))
        \<le> dropoffs_in (take i ?seq)"
    by (simp add: v_passing_def dropoffs_in_def)
  have times: "\<forall>i<length ?seq. on_time line_road 300 (q_v v_passing) (t_v v_passing) ?seq i"
    unfolding len idx
    by (auto simp: on_time_def v_passing_def line_road_def pickup_stop_def dropoff_stop_def
        r_far_def r_near_def numeral_2_eq_2)
  from cover prec load first times show ?thesis
    unfolding feasible_order_def by simp
qed

lemma route_cost_v_passing:
  "route_cost line_road (q_v v_passing) [pickup_stop r_near, dropoff_stop r_near, dropoff_stop r_far]
     = Some 90"
  by (simp add: v_passing_def line_road_def pickup_stop_def dropoff_stop_def r_far_def r_near_def)


text \<open>
  Claim C1 says that \<open>travel\<close> returns a stop order of least cost among all orders that
  meet the precedence, capacity, onboard-first, deadline and reachability constraints.
  For a vehicle with a passenger this fails. The vehicle stands at node 0 with capacity 2
  and carries one passenger to node 90; the new request goes from node 0 to node 30, so
  \<open>|O| + |N| \<le> capacity\<close>. Picking the new rider up at once and dropping both on the way
  meets all six constraints and costs 90. \<open>travel\<close> returns the order that first drives
  the passenger to node 90 and then comes back, at cost 210: the loaded-vehicle branch of
  \<open>is_valid_permutation\<close> compares \<open>pickups_made\<close> with
  \<open>dropoffs_made + len(trip_set)\<close>, where the empty-vehicle branch compares it with
  \<open>dropoffs_made + max_capacity\<close>, and so rejects every order that starts with a pickup.
\<close>

theorem travel_misses_cheaper_feasible_order:
  "travel v_passing [r_near] line_road 2 300
     = (StopSeq [dropoff_stop r_far, pickup_stop r_near, dropoff_stop r_near], Finite 210)
   \<and> int (length (trip_set v_passing)) + int (length [r_near]) \<le> 2
   \<and> feasible_order v_passing [r_near] line_road 2 300
        [pickup_stop r_near, dropoff_stop r_near, dropoff_stop r_far]
   \<and> route_cost line_road (q_v v_passing)
        [pickup_stop r_near, dropoff_stop r_near, dropoff_stop r_far] = Some 90"
  using travel_v_passing feasible_v_passing route_cost_v_passing
  by (simp add: v_passing_def)

theorem travel_misses_cheaper_feasible_order_witness:
  "travel v_passing [r_near] line_road 2 300
     = (StopSeq [dropoff_stop r_far, pickup_stop r_near, dropoff_stop r_near], Finite 210)
   \<and> route_cost line_road (q_v v_passing)
        [pickup_stop r_near, dropoff_stop r_near, dropoff_stop r_far] = Some 90
   \<and> (90::real) < 210"
  using travel_misses_cheaper_feasible_order by simp

section \<open>Properties of the RV graph\<close>

subsection \<open>Request-request edges\<close>


lemma rr_edge_west_east: "rr_edge line_road 0 60 r_west r_east = Some 10"
  by (simp add: rr_edge_def line_road_def r_west_def r_east_def)

lemma not_compatible_west_east: "\<not> rr_compatible line_road 0 60 r_west r_east"
proof -
  have a: "\<not> on_time line_road 60 (o_r r_west) 0
      [pickup_stop r_west, dropoff_stop r_west, pickup_stop r_east, dropoff_stop r_east] 2"
    by (simp add: on_time_def line_road_def pickup_stop_def dropoff_stop_def
        r_west_def r_east_def numeral_3_eq_3 numeral_2_eq_2)
  have b: "\<not> on_time line_road 60 (o_r r_west) 0
      [pickup_stop r_west, pickup_stop r_east, dropoff_stop r_east, dropoff_stop r_west] 3"
    by (simp add: on_time_def line_road_def pickup_stop_def dropoff_stop_def
        r_west_def r_east_def numeral_3_eq_3 numeral_2_eq_2)
  have c: "\<not> on_time line_road 60 (o_r r_west) 0
      [pickup_stop r_west, pickup_stop r_east, dropoff_stop r_west, dropoff_stop r_east] 3"
    by (simp add: on_time_def line_road_def pickup_stop_def dropoff_stop_def
        r_west_def r_east_def numeral_3_eq_3 numeral_2_eq_2)
  have d: "composite_feasible graph ct md r seq \<Longrightarrow> i < length seq
      \<Longrightarrow> on_time graph md (o_r r) ct seq i" for graph ct md r seq i
    by (simp add: composite_feasible_def)
  show ?thesis
    unfolding rr_compatible_def
  proof (intro notI, elim disjE)
    assume "composite_feasible line_road 0 60 r_west
      [pickup_stop r_west, dropoff_stop r_west, pickup_stop r_east, dropoff_stop r_east]"
    from d[OF this, of 2] a show False by simp
  next
    assume "composite_feasible line_road 0 60 r_west
      [pickup_stop r_west, pickup_stop r_east, dropoff_stop r_east, dropoff_stop r_west]"
    from d[OF this, of 3] b show False by simp
  next
    assume "composite_feasible line_road 0 60 r_west
      [pickup_stop r_west, pickup_stop r_east, dropoff_stop r_west, dropoff_stop r_east]"
    from d[OF this, of 3] c show False by simp
  qed
qed


lemma generate_west_east:
  "rv_edges (generate_rv_graph line_road [] [r_west, r_east] 0 2 60 False 30)
     = [(''r1'', ''r2'', \<lparr>e_travel_time = 10, e_stops = None, e_edge_type = rr\<rparr>)]"
  by code_simp

text \<open>
  The first of the three tests of the code is not the composite "pick r1, drop r1, pick
  r2, drop r2": its leg \<open>o1d1\<close> is queried from the first origin to the second origin.
  On the line road, at time 0 with \<open>max_delay = 60\<close>, take a request from node 40 to
  node 0 and one from node 50 to node 140, both placed at time 0 with a waiting time of 60.
  No composite trip reaches all its stops in time, and the code adds the edge, through its
  first test.
\<close>

lemma rr_edge_first_test_takes_wrong_leg:
  "rr_edge line_road 0 60 r_west r_east = Some 10
   \<and> rv_edges (generate_rv_graph line_road [] [r_west, r_east] 0 2 60 False 30)
       = [(''r1'', ''r2'', \<lparr>e_travel_time = 10, e_stops = None, e_edge_type = rr\<rparr>)]
   \<and> \<not> rr_compatible line_road 0 60 r_west r_east"
  using rr_edge_west_east not_compatible_west_east generate_west_east by simp

text \<open>
  The same leg also loses edges. On the line road, at time 0 with \<open>max_delay = 20\<close>,
  the trip "pick r1 at 0, drop r1 at 10, pick r2 at 100, drop r2 at 110" meets every
  deadline; the first test of the code adds the 100 from origin to origin where the trip
  drives the 10 to the first destination, fails, and no edge is added.
\<close>

lemma composite_here_there:
  "composite_feasible line_road 0 20 r_here
     [pickup_stop r_here, dropoff_stop r_here, pickup_stop r_there, dropoff_stop r_there]"
proof -
  let ?seq = "[pickup_stop r_here, dropoff_stop r_here, pickup_stop r_there, dropoff_stop r_there]"
  have o: "on_time line_road 20 (o_r r_here) 0 ?seq 0"
    "on_time line_road 20 (o_r r_here) 0 ?seq 1"
    "on_time line_road 20 (o_r r_here) 0 ?seq 2"
    "on_time line_road 20 (o_r r_here) 0 ?seq 3"
    by (simp_all add: on_time_def line_road_def pickup_stop_def dropoff_stop_def
        r_here_def r_there_def numeral_2_eq_2 numeral_3_eq_3)
  show ?thesis
    unfolding composite_feasible_def
  proof (intro allI impI)
    fix i assume "i < length ?seq"
    then have "i = 0 \<or> i = 1 \<or> i = 2 \<or> i = 3" by auto
    with o show "on_time line_road 20 (o_r r_here) 0 ?seq i" by auto
  qed
qed

lemma generate_here_there:
  "rv_edges (generate_rv_graph line_road [] [r_here, r_there] 0 2 20 True 30) = []"
  by code_simp

lemma rr_edge_first_test_loses_edge:
  "rr_edge line_road 0 20 r_here r_there = None
   \<and> rv_edges (generate_rv_graph line_road [] [r_here, r_there] 0 2 20 True 30) = []
   \<and> rr_compatible line_road 0 20 r_here r_there"
proof -
  have "rr_edge line_road 0 20 r_here r_there = None"
    by (simp add: rr_edge_def line_road_def r_here_def r_there_def)
  moreover from composite_here_there have "rr_compatible line_road 0 20 r_here r_there"
    by (simp add: rr_compatible_def)
  ultimately show ?thesis using generate_here_there by simp
qed











subsection \<open>Pruning\<close>

lemma same_edge_self: "same_edge (fst x) (fst (snd x)) x"
  by (cases x) simp

lemma same_edge_orient:
  "incident n e \<Longrightarrow> same_edge u w (orient n e) = same_edge u w e"
  by (cases e) auto

lemma survives_Nil: "survives [] = (\<lambda>e. True)"
  by (simp add: survives_def)

lemma survives_Cons:
  "survives (x # xs) = (\<lambda>e. \<not> same_edge (fst x) (fst (snd x)) e \<and> survives xs e)"
  by (simp add: survives_def)

lemma foldl_remove_edge:
  "foldl (\<lambda>g e. remove_edge g (fst e) (fst (snd e))) g xs
     = g\<lparr>rv_edges := filter (survives xs) (rv_edges g)\<rparr>"
proof (induction xs arbitrary: g)
  case Nil
  then show ?case by (simp add: survives_Nil)
next
  case (Cons x xs)
  show ?case
    apply (simp only: foldl_Cons Cons.IH survives_Cons)
    apply (simp add: remove_edge_def conj_commute)
    done
qed

lemma prune_node_edges:
  "prune_node top_k g n = g\<lparr>rv_edges := filter (survives (dropped top_k g n)) (rv_edges g)\<rparr>"
  by (simp add: prune_node_def dropped_def Let_def foldl_remove_edge survives_Nil)

lemma survives_orient: "incident n e \<Longrightarrow> survives xs (orient n e) = survives xs e"
  by (simp add: survives_def same_edge_orient)

lemma edges_at_filter:
  "edges_at (g\<lparr>rv_edges := filter (survives xs) (rv_edges g)\<rparr>) n
     = filter (survives xs) (edges_at g n)"
proof -
  have "filter (survives xs) (map (orient n) ys) = map (orient n) (filter (survives xs) ys)"
    if "\<forall>e\<in>set ys. incident n e" for ys
    using that by (induction ys) (auto simp: survives_orient)
  from this[of "filter (incident n) (rv_edges g)"]
  have "filter (survives xs) (map (orient n) (filter (incident n) (rv_edges g)))
          = map (orient n) (filter (survives xs) (filter (incident n) (rv_edges g)))" by simp
  also have "filter (survives xs) (filter (incident n) (rv_edges g))
          = filter (incident n) (filter (survives xs) (rv_edges g))"
    by (simp add: conj_commute)
  finally show ?thesis by (simp add: edges_at_def)
qed

lemma own_edges_filter:
  "own_edges (g\<lparr>rv_edges := filter (survives xs) (rv_edges g)\<rparr>) n
     = filter (survives xs) (own_edges g n)"
  by (simp add: own_edges_def edges_at_filter conj_commute)

lemma own_edges_prune_node:
  "own_edges (prune_node top_k g m) n = filter (survives (dropped top_k g m)) (own_edges g n)"
  by (simp add: prune_node_edges own_edges_filter)

lemma own_edges_prune_node_le:
  "length (own_edges (prune_node top_k g m) n) \<le> length (own_edges g n)"
  by (simp add: own_edges_prune_node)

lemma own_edges_prune_node_self:
  "length (own_edges (prune_node top_k g n) n) \<le> top_k"
proof (cases "length (own_edges g n) > top_k")
  case False
  have "length (own_edges (prune_node top_k g n) n) \<le> length (own_edges g n)"
    by (rule own_edges_prune_node_le)
  with False show ?thesis by simp
next
  case True
  let ?es = "own_edges g n"
  let ?sorted = "sort_key (\<lambda>e. e_travel_time (snd (snd e))) ?es"
  let ?P = "survives (drop top_k ?sorted)"
  from True have d: "dropped top_k g n = drop top_k ?sorted" by (simp add: dropped_def)
  have gone: "filter ?P (drop top_k ?sorted) = []"
    by (auto simp: filter_empty_conv survives_def intro: same_edge_self)
  have "mset ?es = mset (take top_k ?sorted) + mset (drop top_k ?sorted)"
    by (metis append_take_drop_id mset_append mset_sort)
  then have "filter_mset ?P (mset ?es)
      = filter_mset ?P (mset (take top_k ?sorted)) + filter_mset ?P (mset (drop top_k ?sorted))"
    by simp
  also have "filter_mset ?P (mset (drop top_k ?sorted)) = {#}"
    using gone by (metis mset_filter mset.simps(1))
  finally have "mset (filter ?P ?es) = mset (filter ?P (take top_k ?sorted))"
    by simp
  then have "length (filter ?P ?es) = length (filter ?P (take top_k ?sorted))"
    by (metis size_mset)
  also have "\<dots> \<le> length (take top_k ?sorted)" by (rule length_filter_le)
  also have "\<dots> \<le> top_k" by simp
  finally show ?thesis by (simp add: own_edges_prune_node d)
qed

lemma rv_nodes_prune_node: "rv_nodes (prune_node top_k g n) = rv_nodes g"
  by (simp add: prune_node_edges)

lemma rv_nodes_foldl_prune_node: "rv_nodes (foldl (prune_node top_k) g ns) = rv_nodes g"
  by (induction ns arbitrary: g) (simp_all add: rv_nodes_prune_node)

lemma foldl_prune_node_bound:
  "n \<in> set ns \<Longrightarrow> length (own_edges (foldl (prune_node top_k) g ns) n) \<le> top_k"
proof (induction ns rule: rev_induct)
  case Nil
  then show ?case by simp
next
  case (snoc m ns)
  show ?case
  proof (cases "n = m")
    case True
    then show ?thesis by (simp add: own_edges_prune_node_self)
  next
    case False
    with snoc.prems have "n \<in> set ns" by simp
    from snoc.IH[OF this]
      own_edges_prune_node_le[of top_k "foldl (prune_node top_k) g ns" m n]
    show ?thesis by simp
  qed
qed

lemma prune_edges_bound:
  "n \<in> set (rv_nodes (copy g)) \<Longrightarrow> length (own_edges (prune_edges g top_k) n) \<le> top_k"
  by (simp add: prune_edges_def Let_def foldl_prune_node_bound)


lemma same_edge_pair_of: "same_edge u w e \<longleftrightarrow> pair_of e = {u, w}"
  by (cases e) (auto simp: pair_of_def doubleton_eq_iff)

lemma pair_of_orient: "incident n e \<Longrightarrow> pair_of (orient n e) = pair_of e"
  by (cases e) (auto simp: pair_of_def)

lemma survives_iff: "survives xs e \<longleftrightarrow> pair_of e \<notin> pair_of ` set xs"
  by (auto simp: survives_def same_edge_pair_of pair_of_def)

lemma simple_graph_filter:
  "simple_graph g \<Longrightarrow> simple_graph (g\<lparr>rv_edges := filter P (rv_edges g)\<rparr>)"
  by (simp add: simple_graph_def distinct_map_filter)

lemma typed_graph_filter:
  "typed_graph g \<Longrightarrow> typed_graph (g\<lparr>rv_edges := filter P (rv_edges g)\<rparr>)"
  by (simp add: typed_graph_def)

lemma simple_graph_prune_node: "simple_graph g \<Longrightarrow> simple_graph (prune_node top_k g n)"
  by (simp add: prune_node_edges simple_graph_filter)

lemma typed_graph_prune_node: "typed_graph g \<Longrightarrow> typed_graph (prune_node top_k g n)"
  by (simp add: prune_node_edges typed_graph_filter)

lemma simple_graph_foldl_prune_node:
  "simple_graph g \<Longrightarrow> simple_graph (foldl (prune_node top_k) g ns)"
  by (induction ns arbitrary: g) (simp_all add: simple_graph_prune_node)

lemma typed_graph_foldl_prune_node:
  "typed_graph g \<Longrightarrow> typed_graph (foldl (prune_node top_k) g ns)"
  by (induction ns arbitrary: g) (simp_all add: typed_graph_prune_node)

lemma own_edges_origin:
  assumes "e \<in> set (own_edges g n)"
  obtains e0 where "e0 \<in> set (rv_edges g)" "incident n e0" "e = orient n e0"
    "e_edge_type (snd (snd e0)) = (if starts_with_r n then rr else rv)"
proof -
  from assms obtain e0 where e0: "e0 \<in> set (rv_edges g)" "incident n e0" "e = orient n e0"
    and ty: "e_edge_type (snd (snd e)) = (if starts_with_r n then rr else rv)"
    by (auto simp: own_edges_def edges_at_def)
  from e0(3) have "snd (snd e) = snd (snd e0)" by (cases e0) auto
  with ty e0 that show thesis by simp
qed

lemma own_edges_distinct_pairs:
  assumes "simple_graph g"
  shows "distinct (map pair_of (own_edges g n))"
proof -
  have "map pair_of (map (orient n) (filter (incident n) (rv_edges g)))
          = map pair_of (filter (incident n) (rv_edges g))"
    by (simp add: pair_of_orient)
  moreover from assms have "distinct (map pair_of (filter (incident n) (rv_edges g)))"
    by (simp add: simple_graph_def distinct_map_filter)
  ultimately have "distinct (map pair_of (edges_at g n))"
    by (simp only: edges_at_def)
  then show ?thesis by (simp add: own_edges_def distinct_map_filter)
qed

text \<open>Pruning at another node leaves the VR edges of a vehicle alone.\<close>

lemma own_edges_prune_node_other:
  assumes s: "simple_graph g" and t: "typed_graph g"
    and v: "\<not> starts_with_r v" and m: "m \<noteq> v"
  shows "own_edges (prune_node top_k g m) v = own_edges g v"
proof -
  have "survives (dropped top_k g m) e" if e: "e \<in> set (own_edges g v)" for e
  proof (rule ccontr)
    assume "\<not> survives (dropped top_k g m) e"
    then obtain x where x: "x \<in> set (dropped top_k g m)" "pair_of x = pair_of e"
      by (auto simp: survives_iff)
    from x(1) have xo: "x \<in> set (own_edges g m)"
      by (auto simp: dropped_def split: if_splits dest: in_set_dropD)
    from e obtain e0 where e0: "e0 \<in> set (rv_edges g)" "incident v e0" "e = orient v e0"
      "e_edge_type (snd (snd e0)) = (if starts_with_r v then rr else rv)"
      by (rule own_edges_origin)
    from xo obtain x0 where x0: "x0 \<in> set (rv_edges g)" "incident m x0" "x = orient m x0"
      "e_edge_type (snd (snd x0)) = (if starts_with_r m then rr else rv)"
      by (rule own_edges_origin)
    from x(2) e0 x0 have "pair_of x0 = pair_of e0" by (simp add: pair_of_orient)
    with s e0(1) x0(1) have eq: "x0 = e0"
      by (auto simp: simple_graph_def distinct_map dest: inj_onD)
    from e0(4) v have rvt: "e_edge_type (snd (snd e0)) = rv" by simp
    with t e0(1) obtain a where a: "a \<in> pair_of e0" "starts_with_r a"
      unfolding typed_graph_def by blast
    from e0(2) have "v \<in> pair_of e0" by (cases e0) (auto simp: pair_of_def)
    moreover from x0(2) eq have "m \<in> pair_of e0" by (cases e0) (auto simp: pair_of_def)
    ultimately have "pair_of e0 = {v, m}" using m by (auto simp: pair_of_def)
    with a v have "starts_with_r m" by auto
    with x0(4) eq rvt show False by simp
  qed
  then show ?thesis by (simp add: own_edges_prune_node)
qed

lemma own_edges_foldl_prune_node_other:
  assumes "simple_graph g" "typed_graph g" "\<not> starts_with_r v" "v \<notin> set ns"
  shows "own_edges (foldl (prune_node top_k) g ns) v = own_edges g v"
  using assms
proof (induction ns arbitrary: g)
  case Nil
  then show ?case by simp
next
  case (Cons m ns)
  from Cons.prems have "m \<noteq> v" "v \<notin> set ns" by auto
  with Cons.prems Cons.IH[of "prune_node top_k g m"]
  show ?case
    by (simp add: simple_graph_prune_node typed_graph_prune_node own_edges_prune_node_other)
qed

text \<open>Pruning at a node of a simple graph keeps exactly the first \<open>top_k\<close> by weight.\<close>

lemma own_edges_prune_node_smallest:
  assumes s: "simple_graph g"
  shows "mset (own_edges (prune_node top_k g n) n)
     = mset (take top_k (sort_key (\<lambda>e. e_travel_time (snd (snd e))) (own_edges g n)))"
proof (cases "length (own_edges g n) > top_k")
  case False
  then have "dropped top_k g n = []" by (simp add: dropped_def)
  with False show ?thesis by (simp add: own_edges_prune_node survives_Nil)
next
  case True
  let ?es = "own_edges g n"
  let ?sorted = "sort_key (\<lambda>e. e_travel_time (snd (snd e))) ?es"
  from True have d: "dropped top_k g n = drop top_k ?sorted" by (simp add: dropped_def)
  from own_edges_distinct_pairs[OF s] have dp: "distinct (map pair_of ?es)" .
  then have inj: "inj_on pair_of (set ?es)" and des: "distinct ?es"
    by (simp_all add: distinct_map)
  have sub: "set (drop top_k ?sorted) \<subseteq> set ?es"
    by (metis set_drop_subset set_sort)
  have sv: "survives (drop top_k ?sorted) e \<longleftrightarrow> e \<notin> set (drop top_k ?sorted)"
    if "e \<in> set ?es" for e
  proof
    assume "survives (drop top_k ?sorted) e"
    then show "e \<notin> set (drop top_k ?sorted)" by (auto simp: survives_iff)
  next
    assume ne: "e \<notin> set (drop top_k ?sorted)"
    show "survives (drop top_k ?sorted) e"
    proof (rule ccontr)
      assume "\<not> survives (drop top_k ?sorted) e"
      then obtain x where x: "x \<in> set (drop top_k ?sorted)" "pair_of x = pair_of e"
        by (auto simp: survives_iff)
      with sub that inj have "x = e" by (auto dest: inj_onD)
      with x ne show False by simp
    qed
  qed
  then have f: "filter (survives (drop top_k ?sorted)) ?es
      = filter (\<lambda>e. e \<notin> set (drop top_k ?sorted)) ?es"
    by (auto intro: filter_cong)
  from des have ds: "distinct ?sorted" by simp
  then have disj: "set (take top_k ?sorted) \<inter> set (drop top_k ?sorted) = {}"
    by (metis append_take_drop_id distinct_append)
  have m: "mset ?es = mset (take top_k ?sorted) + mset (drop top_k ?sorted)"
    by (metis append_take_drop_id mset_append mset_sort)
  have "mset (filter (\<lambda>e. e \<notin> set (drop top_k ?sorted)) ?es)
      = filter_mset (\<lambda>e. e \<notin> set (drop top_k ?sorted)) (mset (take top_k ?sorted))
        + filter_mset (\<lambda>e. e \<notin> set (drop top_k ?sorted)) (mset (drop top_k ?sorted))"
    by (simp add: m)
  also have "filter_mset (\<lambda>e. e \<notin> set (drop top_k ?sorted)) (mset (drop top_k ?sorted)) = {#}"
    by simp
  also have "filter_mset (\<lambda>e. e \<notin> set (drop top_k ?sorted)) (mset (take top_k ?sorted))
      = mset (take top_k ?sorted)"
    using disj by (auto simp: filter_mset_eq_conv)
  finally show ?thesis by (simp add: own_edges_prune_node d f)
qed

lemma foldl_prune_node_smallest:
  assumes "simple_graph g" "typed_graph g" "\<not> starts_with_r v" "v \<in> set ns"
  shows "mset (own_edges (foldl (prune_node top_k) g ns) v)
     = mset (take top_k (sort_key (\<lambda>e. e_travel_time (snd (snd e))) (own_edges g v)))"
  using assms(4)
proof (induction ns rule: rev_induct)
  case Nil
  then show ?case by simp
next
  case (snoc m ns)
  let ?g' = "foldl (prune_node top_k) g ns"
  have s': "simple_graph ?g'" and t': "typed_graph ?g'"
    using assms(1,2) by (simp_all add: simple_graph_foldl_prune_node typed_graph_foldl_prune_node)
  show ?case
  proof (cases "v \<in> set ns")
    case True
    note ih = snoc.IH[OF True]
    show ?thesis
    proof (cases "m = v")
      case False
      with own_edges_prune_node_other[OF s' t' assms(3), of m top_k] ih show ?thesis by simp
    next
      case mv: True
      from ih have "length (own_edges ?g' v) \<le> top_k"
        by (metis size_mset length_take min.cobounded2)
      then have "dropped top_k ?g' v = []" by (simp add: dropped_def)
      with mv ih show ?thesis by (simp add: own_edges_prune_node survives_Nil)
    qed
  next
    case False
    with snoc.prems have mv: "m = v" by simp
    from own_edges_foldl_prune_node_other[OF assms(1,2,3) False]
    have "own_edges ?g' v = own_edges g v" .
    with own_edges_prune_node_smallest[OF s', of top_k v] mv show ?thesis by simp
  qed
qed


subsection \<open>Invariants of the constructed graph\<close>

lemma rv_edges_add_node: "rv_edges (add_node g n) = rv_edges g"
  by (simp add: add_node_def)

lemma rv_nodes_add_node: "set (rv_nodes (add_node g n)) = insert n (set (rv_nodes g))"
  by (auto simp: add_node_def)

lemma rv_edges_foldl_add_node: "rv_edges (foldl add_node g ns) = rv_edges g"
  by (induction ns arbitrary: g) (simp_all add: rv_edges_add_node)

lemma rv_nodes_foldl_add_node: "set (rv_nodes (foldl add_node g ns)) = set (rv_nodes g) \<union> set ns"
  by (induction ns arbitrary: g) (auto simp: rv_nodes_add_node)

lemma rv_nodes_add_edge: "set (rv_nodes g) \<subseteq> set (rv_nodes (add_edge g u w d))"
  by (auto simp: add_edge_def Let_def rv_nodes_add_node)

lemma list_ex_same_edge: "list_ex (same_edge u w) es \<longleftrightarrow> {u, w} \<in> pair_of ` set es"
  by (auto simp: list_ex_iff same_edge_pair_of)

lemma simple_graph_add_edge: "simple_graph g \<Longrightarrow> simple_graph (add_edge g u w d)"
proof -
  assume s: "simple_graph g"
  have m: "map pair_of (map (\<lambda>e. if same_edge u w e
              then (fst e, fst (snd e), update_data (snd (snd e)) d) else e) es)
            = map pair_of es" for es
    by (induction es) (simp_all add: pair_of_def)
  show ?thesis
  proof (cases "list_ex (same_edge u w) (rv_edges g)")
    case True
    with s show ?thesis
      by (simp add: add_edge_def Let_def rv_edges_add_node simple_graph_def m del: map_map)
  next
    case False
    then have "{u, w} \<notin> pair_of ` set (rv_edges g)" by (simp add: list_ex_same_edge)
    with s False show ?thesis
      by (simp add: add_edge_def Let_def rv_edges_add_node simple_graph_def pair_of_def)
  qed
qed

lemma typed_graph_add_edge:
  assumes t: "typed_graph g"
    and d: "e_edge_type d = rv \<longrightarrow> starts_with_r u \<noteq> starts_with_r w"
  shows "typed_graph (add_edge g u w d)"
proof (cases "list_ex (same_edge u w) (rv_edges g)")
  case False
  with t d show ?thesis
    by (auto simp: add_edge_def Let_def rv_edges_add_node typed_graph_def pair_of_def)
next
  case True
  let ?f = "\<lambda>e. if same_edge u w e
              then (fst e, fst (snd e), update_data (snd (snd e)) d) else e"
  have key: "e_edge_type (snd (snd (?f e))) = rv
        \<longrightarrow> (\<exists>a\<in>pair_of (?f e). starts_with_r a) \<and> (\<exists>b\<in>pair_of (?f e). \<not> starts_with_r b)"
    if e: "e \<in> set (rv_edges g)" for e
  proof (cases "same_edge u w e")
    case False
    with t e show ?thesis by (simp add: typed_graph_def)
  next
    case same: True
    then have p: "pair_of (?f e) = {u, w}"
      by (simp add: same_edge_pair_of pair_of_def)
    from same have ty: "e_edge_type (snd (snd (?f e))) = e_edge_type d"
      by (simp add: update_data_def)
    from d show ?thesis unfolding p ty by auto
  qed
  from True have eq: "rv_edges (add_edge g u w d) = map ?f (rv_edges g)"
    by (simp add: add_edge_def Let_def rv_edges_add_node)
  show ?thesis
    unfolding typed_graph_def
  proof
    fix e'
    assume "e' \<in> set (rv_edges (add_edge g u w d))"
    then have "e' \<in> ?f ` set (rv_edges g)" by (simp only: eq set_map)
    then obtain e where "e \<in> set (rv_edges g)" "e' = ?f e" by (rule imageE)
    with key[of e] show "e_edge_type (snd (snd e')) = rv
        \<longrightarrow> (\<exists>a\<in>pair_of e'. starts_with_r a) \<and> (\<exists>b\<in>pair_of e'. \<not> starts_with_r b)"
      by simp
  qed
qed

lemma nodes_closed_add_edge:
  assumes "nodes_closed g"
  shows "nodes_closed (add_edge g u w d)"
proof -
  let ?g = "add_node (add_node g u) w"
  have n: "set (rv_nodes ?g) = insert w (insert u (set (rv_nodes g)))"
    by (simp add: rv_nodes_add_node)
  have e: "rv_edges ?g = rv_edges g" by (simp add: rv_edges_add_node)
  show ?thesis
  proof (cases "list_ex (same_edge u w) (rv_edges g)")
    case False
    with assms show ?thesis
      by (auto simp: add_edge_def Let_def nodes_closed_def n e)
  next
    case True
    with assms show ?thesis
      by (auto simp: add_edge_def Let_def nodes_closed_def n e)
  qed
qed

lemma foldl_invariant:
  "P g \<Longrightarrow> (\<And>g x. P g \<Longrightarrow> P (f g x)) \<Longrightarrow> P (foldl f g xs)"
  by (induction xs arbitrary: g) simp_all

lemma nodes_closed_add_vr_edges:
  assumes "nodes_closed g"
  shows "nodes_closed (add_vr_edges graph max_capacity max_delay requests g v)"
proof -
  have step: "nodes_closed (add_vr_edge graph max_capacity max_delay v h r)"
    if "nodes_closed h" for h r
    using that
    by (auto simp: add_vr_edge_def nodes_closed_add_edge
        split: prod.splits trip_result.splits cost.splits)
  have "nodes_closed (foldl (add_vr_edge graph max_capacity max_delay v) g requests)"
    by (rule foldl_invariant[where P = nodes_closed]) (simp_all add: assms step)
  with assms show ?thesis by (simp add: add_vr_edges_def)
qed

lemma nodes_closed_add_rr_edge:
  assumes "nodes_closed g"
  shows "nodes_closed (add_rr_edge graph current_time max_delay g p)"
  using assms by (auto simp: add_rr_edge_def nodes_closed_add_edge split: option.splits)

lemma build_rv_graph_closed:
  "nodes_closed (build_rv_graph graph vehicles requests current_time max_capacity max_delay)"
proof -
  let ?g2 = "foldl add_node (foldl add_node empty_graph (map rid requests)) (map vid vehicles)"
  let ?g3 = "foldl (add_vr_edges graph max_capacity max_delay requests) ?g2 vehicles"
  have "rv_edges ?g2 = []"
    by (simp add: rv_edges_foldl_add_node empty_graph_def)
  then have c2: "nodes_closed ?g2" by (simp add: nodes_closed_def)
  have c3: "nodes_closed ?g3"
    by (rule foldl_invariant[where P = nodes_closed])
      (simp_all add: c2 nodes_closed_add_vr_edges)
  have "nodes_closed (foldl (add_rr_edge graph current_time max_delay) ?g3
          (combinations2 requests))"
    by (rule foldl_invariant[where P = nodes_closed])
      (simp_all add: c3 nodes_closed_add_rr_edge)
  then show ?thesis by (simp add: build_rv_graph_def Let_def)
qed

lemma add_vr_edge_invariants:
  assumes "simple_graph g" "typed_graph g" "\<not> starts_with_r (vid v)" "starts_with_r (rid r)"
  shows "simple_graph (add_vr_edge graph max_capacity max_delay v g r)
       \<and> typed_graph (add_vr_edge graph max_capacity max_delay v g r)
       \<and> set (rv_nodes g) \<subseteq> set (rv_nodes (add_vr_edge graph max_capacity max_delay v g r))"
proof -
  have "typed_graph (add_edge g (vid v) (rid r) d)" for d
    using assms(2,3,4) by (intro typed_graph_add_edge) simp_all
  with assms(1,2) rv_nodes_add_edge show ?thesis
    by (auto simp: add_vr_edge_def simple_graph_add_edge
        split: prod.splits trip_result.splits cost.splits)
qed

lemma add_vr_edges_invariants:
  assumes "simple_graph g" "typed_graph g" "\<not> starts_with_r (vid v)"
    "\<forall>r\<in>set requests. starts_with_r (rid r)"
  shows "simple_graph (add_vr_edges graph max_capacity max_delay requests g v)
       \<and> typed_graph (add_vr_edges graph max_capacity max_delay requests g v)
       \<and> set (rv_nodes g) \<subseteq> set (rv_nodes (add_vr_edges graph max_capacity max_delay requests g v))"
proof -
  have "simple_graph (foldl (add_vr_edge graph max_capacity max_delay v) g rs)
       \<and> typed_graph (foldl (add_vr_edge graph max_capacity max_delay v) g rs)
       \<and> set (rv_nodes g) \<subseteq> set (rv_nodes (foldl (add_vr_edge graph max_capacity max_delay v) g rs))"
    if "\<forall>r\<in>set rs. starts_with_r (rid r)" for rs
    using that assms(1,2)
  proof (induction rs arbitrary: g)
    case Nil
    then show ?case by simp
  next
    case (Cons r rs)
    from Cons.prems assms(3)
      add_vr_edge_invariants[of g v r graph max_capacity max_delay]
    have a: "simple_graph (add_vr_edge graph max_capacity max_delay v g r)"
      "typed_graph (add_vr_edge graph max_capacity max_delay v g r)"
      "set (rv_nodes g) \<subseteq> set (rv_nodes (add_vr_edge graph max_capacity max_delay v g r))"
      by simp_all
    from Cons.prems have "\<forall>r\<in>set rs. starts_with_r (rid r)" by simp
    from Cons.IH[OF this a(1,2)] a(3) show ?case by auto
  qed
  with assms show ?thesis by (simp add: add_vr_edges_def)
qed

lemma foldl_add_vr_edges_invariants:
  assumes "simple_graph g" "typed_graph g" "\<forall>v\<in>set vs. \<not> starts_with_r (vid v)"
    "\<forall>r\<in>set requests. starts_with_r (rid r)"
  shows "simple_graph (foldl (add_vr_edges graph max_capacity max_delay requests) g vs)
       \<and> typed_graph (foldl (add_vr_edges graph max_capacity max_delay requests) g vs)
       \<and> set (rv_nodes g)
           \<subseteq> set (rv_nodes (foldl (add_vr_edges graph max_capacity max_delay requests) g vs))"
  using assms(1,2,3)
proof (induction vs arbitrary: g)
  case Nil
  then show ?case by simp
next
  case (Cons v vs)
  from Cons.prems assms(4)
    add_vr_edges_invariants[of g v requests graph max_capacity max_delay]
  have a: "simple_graph (add_vr_edges graph max_capacity max_delay requests g v)"
    "typed_graph (add_vr_edges graph max_capacity max_delay requests g v)"
    "set (rv_nodes g) \<subseteq> set (rv_nodes (add_vr_edges graph max_capacity max_delay requests g v))"
    by simp_all
  from Cons.prems have "\<forall>v\<in>set vs. \<not> starts_with_r (vid v)" by simp
  from Cons.IH[OF a(1,2) this] a(3) show ?case by auto
qed

lemma add_rr_edge_invariants:
  assumes "simple_graph g" "typed_graph g" "starts_with_r (rid (fst p))" "starts_with_r (rid (snd p))"
  shows "simple_graph (add_rr_edge graph current_time max_delay g p)
       \<and> typed_graph (add_rr_edge graph current_time max_delay g p)
       \<and> set (rv_nodes g) \<subseteq> set (rv_nodes (add_rr_edge graph current_time max_delay g p))"
proof -
  have "typed_graph (add_edge g (rid (fst p)) (rid (snd p))
          \<lparr>e_travel_time = c, e_stops = None, e_edge_type = rr\<rparr>)" for c
    using assms(2) by (intro typed_graph_add_edge) simp_all
  with assms(1,2) rv_nodes_add_edge show ?thesis
    by (auto simp: add_rr_edge_def simple_graph_add_edge split: option.splits)
qed

lemma combinations2_set: "(a, b) \<in> set (combinations2 xs) \<Longrightarrow> a \<in> set xs \<and> b \<in> set xs"
  by (induction xs) auto

lemma foldl_add_rr_edge_invariants:
  assumes "simple_graph g" "typed_graph g"
    "\<forall>p\<in>set ps. starts_with_r (rid (fst p)) \<and> starts_with_r (rid (snd p))"
  shows "simple_graph (foldl (add_rr_edge graph current_time max_delay) g ps)
       \<and> typed_graph (foldl (add_rr_edge graph current_time max_delay) g ps)
       \<and> set (rv_nodes g) \<subseteq> set (rv_nodes (foldl (add_rr_edge graph current_time max_delay) g ps))"
  using assms
proof (induction ps arbitrary: g)
  case Nil
  then show ?case by simp
next
  case (Cons p ps)
  from Cons.prems add_rr_edge_invariants[of g p graph current_time max_delay]
  have a: "simple_graph (add_rr_edge graph current_time max_delay g p)"
    "typed_graph (add_rr_edge graph current_time max_delay g p)"
    "set (rv_nodes g) \<subseteq> set (rv_nodes (add_rr_edge graph current_time max_delay g p))"
    by simp_all
  from Cons.prems
  have "\<forall>p\<in>set ps. starts_with_r (rid (fst p)) \<and> starts_with_r (rid (snd p))" by simp
  from Cons.IH[OF a(1,2) this] a(3) show ?case by auto
qed

lemma build_rv_graph_invariants:
  assumes rs: "\<forall>r\<in>set requests. starts_with_r (rid r)"
    and vs: "\<forall>v\<in>set vehicles. \<not> starts_with_r (vid v)"
  shows "simple_graph (build_rv_graph graph vehicles requests current_time max_capacity max_delay)"
    and "typed_graph (build_rv_graph graph vehicles requests current_time max_capacity max_delay)"
    and "rid ` set requests \<union> vid ` set vehicles
          \<subseteq> set (rv_nodes
                (build_rv_graph graph vehicles requests current_time max_capacity max_delay))"
proof -
  let ?g2 = "foldl add_node (foldl add_node empty_graph (map rid requests)) (map vid vehicles)"
  let ?g3 = "foldl (add_vr_edges graph max_capacity max_delay requests) ?g2 vehicles"
  let ?g4 = "foldl (add_rr_edge graph current_time max_delay) ?g3 (combinations2 requests)"
  have e2: "rv_edges ?g2 = []"
    by (simp add: rv_edges_foldl_add_node empty_graph_def)
  then have s2: "simple_graph ?g2" and t2: "typed_graph ?g2"
    by (simp_all add: simple_graph_def typed_graph_def)
  have n2: "rid ` set requests \<union> vid ` set vehicles \<subseteq> set (rv_nodes ?g2)"
    by (auto simp: rv_nodes_foldl_add_node)
  from foldl_add_vr_edges_invariants[OF s2 t2 vs rs, of graph max_capacity max_delay]
  have s3: "simple_graph ?g3" and t3: "typed_graph ?g3"
    and n3: "set (rv_nodes ?g2) \<subseteq> set (rv_nodes ?g3)" by simp_all
  from rs have "\<forall>p\<in>set (combinations2 requests).
      starts_with_r (rid (fst p)) \<and> starts_with_r (rid (snd p))"
    by (auto dest: combinations2_set)
  from foldl_add_rr_edge_invariants[OF s3 t3 this, of graph current_time max_delay]
  have s4: "simple_graph ?g4" and t4: "typed_graph ?g4"
    and n4: "set (rv_nodes ?g3) \<subseteq> set (rv_nodes ?g4)" by simp_all
  have b: "build_rv_graph graph vehicles requests current_time max_capacity max_delay = ?g4"
    by (simp add: build_rv_graph_def Let_def)
  from s4 b show "simple_graph
      (build_rv_graph graph vehicles requests current_time max_capacity max_delay)" by simp
  from t4 b show "typed_graph
      (build_rv_graph graph vehicles requests current_time max_capacity max_delay)" by simp
  from n2 n3 n4 b show "rid ` set requests \<union> vid ` set vehicles
          \<subseteq> set (rv_nodes
                (build_rv_graph graph vehicles requests current_time max_capacity max_delay))"
    unfolding b by blast
qed


subsection \<open>The copy of a graph\<close>

lemma edge_key_orient: "incident n e \<Longrightarrow> edge_key (orient n e) = edge_key e"
  by (cases e) (auto simp: edge_key_def pair_of_def)

text \<open>The edges at a node are the edges of the graph that touch it, told by their keys.\<close>

lemma edges_at_iff:
  "e \<in> set (edges_at g n) \<longleftrightarrow> fst e = n \<and> edge_key e \<in> edge_key ` set (rv_edges g)"
proof
  assume "e \<in> set (edges_at g n)"
  then obtain e0 where e0: "e0 \<in> set (rv_edges g)" "incident n e0" "e = orient n e0"
    by (auto simp: edges_at_def)
  from e0(3) have "fst e = n" by (cases e0) auto
  moreover from e0 have "edge_key e = edge_key e0" by (simp add: edge_key_orient)
  ultimately show "fst e = n \<and> edge_key e \<in> edge_key ` set (rv_edges g)"
    using e0(1) by blast
next
  assume a: "fst e = n \<and> edge_key e \<in> edge_key ` set (rv_edges g)"
  then obtain e0 where e0: "e0 \<in> set (rv_edges g)" "edge_key e = edge_key e0" by blast
  obtain a b d where e0': "e0 = (a, b, d)" by (cases e0)
  from a obtain c d' where e': "e = (n, c, d')" by (cases e) auto
  from e0(2) e0' e' have d: "d' = d" and p: "{n, c} = {a, b}"
    by (simp_all add: edge_key_def pair_of_def)
  from p have inc: "incident n e0" by (auto simp: e0' doubleton_eq_iff)
  from p have "orient n e0 = e" by (auto simp: e0' e' d doubleton_eq_iff)
  with e0(1) inc have "e \<in> orient n ` set (filter (incident n) (rv_edges g))"
    by (intro image_eqI[where x = e0]) simp_all
  then show "e \<in> set (edges_at g n)" by (simp add: edges_at_def)
qed

lemma edges_at_distinct:
  assumes "simple_graph g"
  shows "distinct (edges_at g n)"
proof -
  have "map pair_of (map (orient n) (filter (incident n) (rv_edges g)))
          = map pair_of (filter (incident n) (rv_edges g))"
    by (simp add: pair_of_orient)
  moreover from assms have "distinct (map pair_of (filter (incident n) (rv_edges g)))"
    by (simp add: simple_graph_def distinct_map_filter)
  ultimately have "distinct (map pair_of (edges_at g n))"
    by (simp only: edges_at_def)
  then show ?thesis by (simp add: distinct_map)
qed

lemma own_edges_distinct: "simple_graph g \<Longrightarrow> distinct (own_edges g n)"
  by (simp add: own_edges_def edges_at_distinct)

lemma edges_at_same_keys:
  assumes "edge_key ` set (rv_edges g) = edge_key ` set (rv_edges h)"
  shows "set (edges_at g n) = set (edges_at h n)"
  using assms by (intro set_eqI) (simp add: edges_at_iff)

lemma own_edges_same_keys:
  assumes "edge_key ` set (rv_edges g) = edge_key ` set (rv_edges h)"
  shows "set (own_edges g n) = set (own_edges h n)"
  using edges_at_same_keys[OF assms, of n] by (simp add: own_edges_def)

lemma simple_graph_same_pair:
  assumes "simple_graph g" "x \<in> set (rv_edges g)" "y \<in> set (rv_edges g)"
    "pair_of x = pair_of y"
  shows "x = y"
  using assms by (auto simp: simple_graph_def distinct_map dest: inj_onD)

lemma update_data_same: "update_data d d = d"
  by (cases "e_stops d") (simp_all add: update_data_def)

lemma add_edge_known:
  assumes s: "simple_graph h"
    and e: "e \<in> set (rv_edges h)" "pair_of e = {u, w}" "snd (snd e) = d"
  shows "rv_edges (add_edge h u w d) = rv_edges h"
proof -
  let ?f = "\<lambda>x. if same_edge u w x
              then (fst x, fst (snd x), update_data (snd (snd x)) d) else x"
  from e have ex: "list_ex (same_edge u w) (rv_edges h)"
    by (simp add: list_ex_same_edge) (metis imageI)
  have "?f x = x" if x: "x \<in> set (rv_edges h)" for x
  proof (cases "same_edge u w x")
    case True
    then have "pair_of x = pair_of e" using e(2) by (simp add: same_edge_pair_of)
    from simple_graph_same_pair[OF s x e(1) this] e(3) have "snd (snd x) = d" by simp
    with True show ?thesis by (cases x) (auto simp: update_data_same)
  next
    case False
    then show ?thesis by simp
  qed
  then have "map ?f (rv_edges h) = rv_edges h" by (simp add: map_idI)
  with ex show ?thesis by (simp add: add_edge_def Let_def rv_edges_add_node)
qed

lemma add_edge_new:
  assumes "{u, w} \<notin> pair_of ` set (rv_edges h)"
  shows "rv_edges (add_edge h u w d) = rv_edges h @ [(u, w, d)]"
  using assms by (simp add: add_edge_def Let_def rv_edges_add_node list_ex_same_edge)

lemma consistent_subset: "consistent T \<Longrightarrow> S \<subseteq> T \<Longrightarrow> consistent S"
  unfolding consistent_def by blast

lemma foldl_add_edge_keys:
  assumes "simple_graph h" and "consistent (set es \<union> set (rv_edges h))"
  shows "edge_key ` set (rv_edges
            (foldl (\<lambda>h e. add_edge h (fst e) (fst (snd e)) (snd (snd e))) h es))
           = edge_key ` set (rv_edges h) \<union> edge_key ` set es"
  using assms
proof (induction es arbitrary: h)
  case Nil
  then show ?case by simp
next
  case (Cons x es)
  let ?h = "add_edge h (fst x) (fst (snd x)) (snd (snd x))"
  have s': "simple_graph ?h" using Cons.prems(1) by (rule simple_graph_add_edge)
  have px: "pair_of x = {fst x, fst (snd x)}" by (simp add: pair_of_def)
  show ?case
  proof (cases "{fst x, fst (snd x)} \<in> pair_of ` set (rv_edges h)")
    case True
    then obtain e where e: "e \<in> set (rv_edges h)" "pair_of e = {fst x, fst (snd x)}"
      by (metis imageE)
    from Cons.prems(2) e px have d: "snd (snd e) = snd (snd x)"
      unfolding consistent_def by simp
    from add_edge_known[OF Cons.prems(1) e d] have eq: "rv_edges ?h = rv_edges h" .
    from e px d have k: "edge_key x = edge_key e" by (simp add: edge_key_def)
    have "consistent (set es \<union> set (rv_edges ?h))"
      by (rule consistent_subset[OF Cons.prems(2)]) (auto simp: eq)
    from Cons.IH[OF s' this] have "edge_key ` set (rv_edges
            (foldl (\<lambda>h e. add_edge h (fst e) (fst (snd e)) (snd (snd e))) ?h es))
           = edge_key ` set (rv_edges h) \<union> edge_key ` set es" by (simp only: eq)
    moreover from k e(1) have "edge_key x \<in> edge_key ` set (rv_edges h)" by simp
    ultimately show ?thesis by auto
  next
    case False
    from add_edge_new[OF False, of "snd (snd x)"]
    have eq: "rv_edges ?h = rv_edges h @ [x]" by simp
    have "consistent (set es \<union> set (rv_edges ?h))"
      by (rule consistent_subset[OF Cons.prems(2)]) (auto simp: eq)
    from Cons.IH[OF s' this] have "edge_key ` set (rv_edges
            (foldl (\<lambda>h e. add_edge h (fst e) (fst (snd e)) (snd (snd e))) ?h es))
           = edge_key ` set (rv_edges h @ [x]) \<union> edge_key ` set es" by (simp only: eq)
    then show ?thesis by auto
  qed
qed

text \<open>
  The copy of a simple graph whose edges join nodes has the edges of the graph, with
  their attributes; only their order, and which end point comes first, may differ.
\<close>

lemma copy_keys:
  assumes s: "simple_graph g" and c: "nodes_closed g"
  shows "edge_key ` set (rv_edges (copy g)) = edge_key ` set (rv_edges g)"
proof -
  let ?es = "concat (map (edges_at g) (rv_nodes g))"
  let ?h = "foldl add_node empty_graph (rv_nodes g)"
  have e0: "rv_edges ?h = []" by (simp add: rv_edges_foldl_add_node empty_graph_def)
  then have sh: "simple_graph ?h" by (simp add: simple_graph_def)
  have sub: "edge_key x \<in> edge_key ` set (rv_edges g)" if "x \<in> set ?es" for x
  proof -
    from that obtain n where "x \<in> set (edges_at g n)" by auto
    then show ?thesis by (simp add: edges_at_iff)
  qed
  have keys: "edge_key ` set ?es = edge_key ` set (rv_edges g)"
  proof (intro set_eqI iffI)
    fix k assume "k \<in> edge_key ` set ?es"
    then obtain x where "x \<in> set ?es" "k = edge_key x" by (rule imageE)
    with sub show "k \<in> edge_key ` set (rv_edges g)" by simp
  next
    fix k assume "k \<in> edge_key ` set (rv_edges g)"
    then obtain e where e: "e \<in> set (rv_edges g)" "k = edge_key e" by (rule imageE)
    with c have n: "fst e \<in> set (rv_nodes g)" by (simp add: nodes_closed_def)
    from e(1) have "e \<in> set (edges_at g (fst e))" by (simp add: edges_at_iff)
    with n have "e \<in> set ?es" by auto
    with e(2) show "k \<in> edge_key ` set ?es" by simp
  qed
  have cons: "consistent (set ?es \<union> set (rv_edges ?h))"
    unfolding e0 consistent_def
  proof (intro ballI impI)
    fix x y
    assume x: "x \<in> set ?es \<union> set []" and y: "y \<in> set ?es \<union> set []"
      and p: "pair_of x = pair_of y"
    from x sub obtain x0 where x0: "x0 \<in> set (rv_edges g)" "edge_key x = edge_key x0"
      by (metis Un_iff empty_iff empty_set imageE)
    from y sub obtain y0 where y0: "y0 \<in> set (rv_edges g)" "edge_key y = edge_key y0"
      by (metis Un_iff empty_iff empty_set imageE)
    from p x0(2) y0(2) have "pair_of x0 = pair_of y0" by (simp add: edge_key_def)
    from simple_graph_same_pair[OF s x0(1) y0(1) this] x0(2) y0(2)
    show "snd (snd x) = snd (snd y)" by (simp add: edge_key_def)
  qed
  from foldl_add_edge_keys[OF sh cons] e0 keys show ?thesis by (simp add: copy_def)
qed

lemma copy_simple: "simple_graph (copy g)"
  unfolding copy_def
proof (rule foldl_invariant[where P = simple_graph])
  show "simple_graph (foldl add_node empty_graph (rv_nodes g))"
    by (simp add: simple_graph_def rv_edges_foldl_add_node empty_graph_def)
next
  fix h :: rv_graph and x :: rv_edge
  assume "simple_graph h"
  then show "simple_graph (add_edge h (fst x) (fst (snd x)) (snd (snd x)))"
    by (rule simple_graph_add_edge)
qed

lemma typed_graph_keys:
  "typed_graph g \<longleftrightarrow>
     (\<forall>k\<in>edge_key ` set (rv_edges g). e_edge_type (snd k) = rv
        \<longrightarrow> (\<exists>a\<in>fst k. starts_with_r a) \<and> (\<exists>b\<in>fst k. \<not> starts_with_r b))"
  by (simp add: typed_graph_def edge_key_def)

lemma copy_typed:
  assumes "simple_graph g" "nodes_closed g" "typed_graph g"
  shows "typed_graph (copy g)"
  using assms(3) by (simp only: typed_graph_keys copy_keys[OF assms(1,2)])

lemma copy_nodes: "set (rv_nodes g) \<subseteq> set (rv_nodes (copy g))"
  unfolding copy_def
proof (rule foldl_invariant[where P = "\<lambda>h. set (rv_nodes g) \<subseteq> set (rv_nodes h)"])
  show "set (rv_nodes g) \<subseteq> set (rv_nodes (foldl add_node empty_graph (rv_nodes g)))"
    by (simp add: rv_nodes_foldl_add_node)
next
  fix h :: rv_graph and x :: rv_edge
  assume "set (rv_nodes g) \<subseteq> set (rv_nodes h)"
  with rv_nodes_add_edge[of h "fst x" "fst (snd x)" "snd (snd x)"]
  show "set (rv_nodes g) \<subseteq> set (rv_nodes (add_edge h (fst x) (fst (snd x)) (snd (snd x))))"
    by (rule order_trans[rotated])
qed

lemma own_edges_copy:
  assumes "simple_graph g" "nodes_closed g"
  shows "set (own_edges (copy g) n) = set (own_edges g n)"
  by (rule own_edges_same_keys[OF copy_keys[OF assms]])

lemma edges_at_copy:
  assumes "simple_graph g" "nodes_closed g"
  shows "set (edges_at (copy g) n) = set (edges_at g n)"
  by (rule edges_at_same_keys[OF copy_keys[OF assms]])

lemma rivals_copy:
  assumes "simple_graph g" "nodes_closed g"
  shows "length (rivals (copy g) n e) = length (rivals g n e)"
proof -
  have "mset (own_edges (copy g) n) = mset (own_edges g n)"
    using own_edges_copy[OF assms, of n] own_edges_distinct[OF copy_simple, of g n]
      own_edges_distinct[OF assms(1), of n]
    by (simp add: set_eq_iff_mset_eq_distinct)
  then have "mset (rivals (copy g) n e) = mset (rivals g n e)"
    by (simp add: rivals_def)
  then show ?thesis by (rule mset_eq_length)
qed

subsection \<open>What pruning keeps\<close>

lemma take_drop_sort_key:
  fixes f :: "'a \<Rightarrow> real"
  assumes "e \<in> set (take k (sort_key f xs))" "x \<in> set (drop k (sort_key f xs))"
  shows "f e \<le> f x"
proof -
  have "sorted (map f (take k (sort_key f xs)) @ map f (drop k (sort_key f xs)))"
    by (metis append_take_drop_id map_append sorted_sort_key)
  then have "\<forall>a\<in>set (map f (take k (sort_key f xs))).
      \<forall>b\<in>set (map f (drop k (sort_key f xs))). a \<le> b"
    unfolding sorted_append by blast
  with assms show ?thesis by simp
qed

lemma smallest_kept_of_take:
  assumes k: "mset kept
      = mset (take top_k (sort_key (\<lambda>e. e_travel_time (snd (snd e))) es))"
    and es: "set es = set had" "distinct es" "distinct had"
  shows "set kept \<subseteq> set had \<and> length kept = min top_k (length had)
     \<and> (\<forall>e\<in>set kept. \<forall>x\<in>set had - set kept.
           e_travel_time (snd (snd e)) \<le> e_travel_time (snd (snd x)))"
proof -
  let ?S = "sort_key (\<lambda>e. e_travel_time (snd (snd e))) es"
  from k have sk: "set kept = set (take top_k ?S)" by (rule mset_eq_setD)
  from k have lk: "length kept = length (take top_k ?S)" by (rule mset_eq_length)
  have "set (take top_k ?S) \<subseteq> set ?S" by (rule set_take_subset)
  with sk es(1) have a: "set kept \<subseteq> set had" by simp
  from es have "length es = length had" by (metis distinct_card)
  with lk have b: "length kept = min top_k (length had)" by (simp add: min.commute)
  have c: "e_travel_time (snd (snd e)) \<le> e_travel_time (snd (snd x))"
    if "e \<in> set kept" "x \<in> set had - set kept" for e x
  proof -
    from that(2) es(1) sk have "x \<in> set ?S" "x \<notin> set (take top_k ?S)" by simp_all
    then have "x \<in> set (drop top_k ?S)"
      by (metis append_take_drop_id set_append Un_iff)
    moreover from that(1) sk have "e \<in> set (take top_k ?S)" by simp
    ultimately show ?thesis by (rule take_drop_sort_key[rotated])
  qed
  from a b c show ?thesis by blast
qed

lemma length_filter_conj:
  "length (filter (\<lambda>x. Q x \<and> P x) xs) \<le> length (filter P xs)"
  by (induction xs) auto

lemma rivals_prune_node:
  "length (rivals (prune_node top_k g m) n e) \<le> length (rivals g n e)"
proof -
  have "rivals (prune_node top_k g m) n e
      = filter (\<lambda>x. survives (dropped top_k g m) x
                 \<and> (x \<noteq> e \<and> e_travel_time (snd (snd x)) \<le> e_travel_time (snd (snd e))))
          (own_edges g n)"
    by (simp add: rivals_def own_edges_prune_node conj_commute)
  then show ?thesis by (simp only: rivals_def length_filter_conj)
qed

text \<open>
  A node does not drop an edge of its kind that has fewer than \<open>top_k\<close> rivals there.
\<close>

lemma kept_at_own_node:
  assumes s: "simple_graph g" and e: "e \<in> set (own_edges g n)"
    and r: "length (rivals g n e) < top_k"
  shows "survives (dropped top_k g n) e"
proof (cases "length (own_edges g n) > top_k")
  case False
  then show ?thesis by (simp add: dropped_def survives_Nil)
next
  case True
  let ?es = "own_edges g n"
  let ?S = "sort_key (\<lambda>e. e_travel_time (snd (snd e))) ?es"
  from True have d: "dropped top_k g n = drop top_k ?S" by (simp add: dropped_def)
  from own_edges_distinct_pairs[OF s] have dp: "distinct (map pair_of ?es)" .
  then have inj: "inj_on pair_of (set ?es)" and des: "distinct ?es"
    by (simp_all add: distinct_map)
  show ?thesis
  proof (rule ccontr)
    assume "\<not> survives (dropped top_k g n) e"
    then obtain x where x: "x \<in> set (drop top_k ?S)" "pair_of x = pair_of e"
      by (auto simp: survives_iff d)
    have "set (drop top_k ?S) \<subseteq> set ?es" by (metis set_drop_subset set_sort)
    with x e inj have "x = e" by (auto dest: inj_onD)
    with x have ed: "e \<in> set (drop top_k ?S)" by simp
    from des have ds: "distinct ?S" by simp
    then have disj: "set (take top_k ?S) \<inter> set (drop top_k ?S) = {}"
      by (metis append_take_drop_id distinct_append)
    have sub: "set (take top_k ?S) \<subseteq> set (rivals g n e)"
    proof
      fix y assume y: "y \<in> set (take top_k ?S)"
      then have "y \<in> set ?es" by (metis in_set_takeD set_sort)
      moreover from y ed disj have "y \<noteq> e" by auto
      moreover from take_drop_sort_key[OF y ed]
      have "e_travel_time (snd (snd y)) \<le> e_travel_time (snd (snd e))" .
      ultimately show "y \<in> set (rivals g n e)" by (simp add: rivals_def)
    qed
    from ds have "distinct (take top_k ?S)" by simp
    then have "card (set (take top_k ?S)) = length (take top_k ?S)" by (rule distinct_card)
    also from True have "\<dots> = top_k" by simp
    finally have "top_k = card (set (take top_k ?S))" by simp
    also from sub have "\<dots> \<le> card (set (rivals g n e))" by (intro card_mono) simp_all
    also have "\<dots> \<le> length (rivals g n e)" by (rule card_length)
    finally show False using r by simp
  qed
qed

lemma pair_of_reverse_edge: "pair_of (reverse_edge e) = pair_of e"
  by (cases e) (auto simp: pair_of_def)

text \<open>
  An edge with fewer than \<open>top_k\<close> rivals at each of its two end points outlives the
  pruning of any node: only its end points can drop it.
\<close>

lemma kept_by_prune_node:
  assumes s: "simple_graph g" and e: "e \<in> set (own_edges g n)"
    and r1: "length (rivals g n e) < top_k"
    and r2: "length (rivals g (fst (snd e)) (reverse_edge e)) < top_k"
  shows "e \<in> set (own_edges (prune_node top_k g m) n)"
proof -
  have "survives (dropped top_k g m) e"
  proof (rule ccontr)
    assume ns: "\<not> survives (dropped top_k g m) e"
    then obtain x where x: "x \<in> set (dropped top_k g m)" "pair_of x = pair_of e"
      by (auto simp: survives_iff)
    from x(1) have xo: "x \<in> set (own_edges g m)"
      by (auto simp: dropped_def split: if_splits dest: in_set_dropD)
    from xo have fx: "fst x = m" and kx: "edge_key x \<in> edge_key ` set (rv_edges g)"
      by (simp_all add: own_edges_def edges_at_iff)
    from e have fe: "fst e = n" and ke: "edge_key e \<in> edge_key ` set (rv_edges g)"
      by (simp_all add: own_edges_def edges_at_iff)
    from kx obtain x0 where x0: "x0 \<in> set (rv_edges g)" "edge_key x = edge_key x0"
      by (rule imageE)
    from ke obtain e0 where e0: "e0 \<in> set (rv_edges g)" "edge_key e = edge_key e0"
      by (rule imageE)
    from x(2) x0(2) e0(2) have "pair_of x0 = pair_of e0" by (simp add: edge_key_def)
    from simple_graph_same_pair[OF s x0(1) e0(1) this] x0(2) e0(2)
    have dd: "snd (snd x) = snd (snd e)" by (simp add: edge_key_def)
    obtain c d where e': "e = (n, c, d)" using fe by (cases e) auto
    obtain b where x': "x = (m, b, d)" using fx dd e' by (cases x) auto
    from x(2) have p: "{m, b} = {n, c}" by (simp add: e' x' pair_of_def)
    show False
    proof (cases "m = n")
      case True
      from kept_at_own_node[OF s e r1] ns True show False by simp
    next
      case False
      with p have "m = c" "b = n" by (auto simp: doubleton_eq_iff)
      then have xr: "x = reverse_edge e" by (simp add: e' x')
      from xo xr \<open>m = c\<close> have "reverse_edge e \<in> set (own_edges g (fst (snd e)))"
        by (simp add: e')
      from kept_at_own_node[OF s this r2]
      have "survives (dropped top_k g (fst (snd e))) e"
        by (simp add: survives_iff pair_of_reverse_edge)
      with ns \<open>m = c\<close> show False by (simp add: e')
    qed
  qed
  with e show ?thesis by (simp add: own_edges_prune_node)
qed

lemma kept_by_foldl_prune_node:
  assumes "simple_graph g" "e \<in> set (own_edges g n)"
    "length (rivals g n e) < top_k"
    "length (rivals g (fst (snd e)) (reverse_edge e)) < top_k"
  shows "e \<in> set (own_edges (foldl (prune_node top_k) g ns) n)"
  using assms
proof (induction ns arbitrary: g)
  case Nil
  then show ?case by simp
next
  case (Cons m ns)
  let ?g = "prune_node top_k g m"
  have 1: "simple_graph ?g" using Cons.prems(1) by (rule simple_graph_prune_node)
  have 2: "e \<in> set (own_edges ?g n)"
    using Cons.prems by (rule kept_by_prune_node)
  have 3: "length (rivals ?g n e) < top_k"
    using rivals_prune_node[of top_k g m n e] Cons.prems(3) by simp
  have 4: "length (rivals ?g (fst (snd e)) (reverse_edge e)) < top_k"
    using rivals_prune_node[of top_k g m "fst (snd e)" "reverse_edge e"] Cons.prems(4)
    by simp
  from Cons.IH[OF 1 2 3 4] show ?case by simp
qed

lemma edges_at_foldl_prune_node:
  "set (edges_at (foldl (prune_node top_k) g ns) n) \<subseteq> set (edges_at g n)"
proof (induction ns rule: rev_induct)
  case Nil
  then show ?case by simp
next
  case (snoc m ns)
  have "set (edges_at (prune_node top_k (foldl (prune_node top_k) g ns) m) n)
          \<subseteq> set (edges_at (foldl (prune_node top_k) g ns) n)"
    by (simp add: prune_node_edges edges_at_filter)
  with snoc.IH show ?case by auto
qed


subsection \<open>The returned graph\<close>

text \<open>
  The copy can change the order of an adjacency: a vehicle whose edge to \<open>r2\<close> was added
  before its edge to \<open>r1\<close> lists \<open>r1\<close> first in the copy, because the node \<open>r1\<close>
  comes first.
\<close>

lemma copy_reorders_adjacency:
  "map (\<lambda>e. fst (snd e))
     (edges_at \<lparr>rv_nodes = [''r1'', ''r2'', ''v1''],
         rv_edges = [(''v1'', ''r2'', \<lparr>e_travel_time = 7, e_stops = None, e_edge_type = rv\<rparr>),
                     (''v1'', ''r1'', \<lparr>e_travel_time = 7, e_stops = None, e_edge_type = rv\<rparr>)]\<rparr>
        ''v1'') = [''r2'', ''r1'']
   \<and> map (\<lambda>e. fst (snd e))
     (edges_at (copy \<lparr>rv_nodes = [''r1'', ''r2'', ''v1''],
         rv_edges = [(''v1'', ''r2'', \<lparr>e_travel_time = 7, e_stops = None, e_edge_type = rv\<rparr>),
                     (''v1'', ''r1'', \<lparr>e_travel_time = 7, e_stops = None, e_edge_type = rv\<rparr>)]\<rparr>)
        ''v1'') = [''r1'', ''r2'']"
  by code_simp

lemma generate_v_empty_q1_q2:
  "generate_rv_graph line_road [v_empty] [q1, q2] 0 2 1000 True 1
     = \<lparr>rv_nodes = [''r1'', ''r2'', ''v1''],
        rv_edges =
          [(''r1'', ''v1'',
            \<lparr>e_travel_time = 30, e_stops = Some [pickup_stop q1, dropoff_stop q1],
             e_edge_type = rv\<rparr>),
           (''r1'', ''r2'', \<lparr>e_travel_time = 1, e_stops = None, e_edge_type = rr\<rparr>)]\<rparr>"
  by code_simp

text \<open>
  The argument \<^verbatim>\<open>prune_edges=False\<close> does not switch pruning off: a vehicle that is
  built with two VR edges is returned with one when \<open>top_k = 1\<close>.
\<close>

lemma generate_prunes_when_not_asked:
  "map fst (rv_edges (build_rv_graph line_road [v_empty] [q1, q2] 0 2 1000))
     = [''v1'', ''v1'', ''r1'']
   \<and> map (\<lambda>e. fst (snd e))
       (edges_at (generate_rv_graph line_road [v_empty] [q1, q2] 0 2 1000 False 1) ''v1'')
     = [''r1'']"
  by code_simp

lemma own_edges_q3_built:
  "own_edges (build_rv_graph line_road [] [q1, q2, q3, q4] 0 2 1000) (rid q3)
     = [(''r3'', ''r1'', \<lparr>e_travel_time = 2, e_stops = None, e_edge_type = rr\<rparr>),
        (''r3'', ''r2'', \<lparr>e_travel_time = 3, e_stops = None, e_edge_type = rr\<rparr>),
        (''r3'', ''r4'', \<lparr>e_travel_time = 5, e_stops = None, e_edge_type = rr\<rparr>)]"
  by code_simp

lemma own_edges_q3_pruned:
  "own_edges (generate_rv_graph line_road [] [q1, q2, q3, q4] 0 2 1000 True 1) (rid q3)
     = [(''r3'', ''r4'', \<lparr>e_travel_time = 5, e_stops = None, e_edge_type = rr\<rparr>)]"
  by code_simp

text \<open>
  Claim C2, as stated, has every node keep its edges of smallest weight. For a request
  node this fails: an RR edge is removed as soon as one of its two end points drops it.
  With four requests whose origins lie at the nodes 10, 11, 8 and 3 and \<open>top_k = 1\<close>,
  request \<open>r3\<close> is built with RR edges of weight 2, 3 and 5; the two lighter ones are
  removed when \<open>r1\<close> and \<open>r2\<close> are pruned, and \<open>r3\<close> keeps the edge of weight 5.
\<close>

theorem pruned_request_keeps_a_heavier_edge:
  "\<not> smallest_kept (build_rv_graph line_road [] [q1, q2, q3, q4] 0 2 1000)
        (generate_rv_graph line_road [] [q1, q2, q3, q4] 0 2 1000 True 1) 1 (rid q3)"
  unfolding smallest_kept_def own_edges_q3_built own_edges_q3_pruned
  by (simp add: Let_def,
      rule bexI[of _ "(''r3'', ''r1'',
        \<lparr>e_travel_time = 2, e_stops = None, e_edge_type = rr\<rparr>)"],
      simp_all)

text \<open>
  Claim C2, amended. Let the request ids start with \<^verbatim>\<open>r\<close> and the vehicle ids not,
  as the data model has them. When \<open>generate_rv_graph\<close> is called with pruning enabled
  and the degree cap \<open>top_k\<close>, then in the returned graph every request node has at most
  \<open>top_k\<close> incident RR edges and every vehicle node has at most \<open>top_k\<close> incident VR
  edges. A vehicle keeps \<open>top_k\<close> of its constructed VR edges, or all of them when they are
  fewer, and none that it keeps is heavier than one that it loses. An RR edge is removed
  when one of its two end points drops it, so a request need not keep its lightest RR
  edges; the constructed RR edge of a request is kept when, at each of its two end
  points, fewer than \<open>top_k\<close> other constructed RR edges are as light or lighter. Every
  edge at a node of the returned graph is a constructed edge at that node.
\<close>

theorem generate_rv_graph_pruned_degrees:
  assumes rs: "\<forall>r\<in>set requests. starts_with_r (rid r)"
    and vs: "\<forall>v\<in>set vehicles. \<not> starts_with_r (vid v)"
  shows "(\<forall>r\<in>set requests.
            length (filter (\<lambda>e. e_edge_type (snd (snd e)) = rr)
              (edges_at (generate_rv_graph graph vehicles requests current_time max_capacity
                           max_delay True top_k) (rid r))) \<le> top_k)
       \<and> (\<forall>v\<in>set vehicles.
            length (filter (\<lambda>e. e_edge_type (snd (snd e)) = rv)
              (edges_at (generate_rv_graph graph vehicles requests current_time max_capacity
                           max_delay True top_k) (vid v))) \<le> top_k)
       \<and> (\<forall>v\<in>set vehicles.
            smallest_kept
              (build_rv_graph graph vehicles requests current_time max_capacity max_delay)
              (generate_rv_graph graph vehicles requests current_time max_capacity
                 max_delay True top_k) top_k (vid v))
       \<and> (\<forall>r\<in>set requests.
            \<forall>e\<in>set (edges_at
                      (build_rv_graph graph vehicles requests current_time max_capacity
                         max_delay) (rid r)).
              e_edge_type (snd (snd e)) = rr
              \<and> length (rivals
                   (build_rv_graph graph vehicles requests current_time max_capacity
                      max_delay) (rid r) e) < top_k
              \<and> length (rivals
                   (build_rv_graph graph vehicles requests current_time max_capacity
                      max_delay) (fst (snd e)) (reverse_edge e)) < top_k
              \<longrightarrow> e \<in> set (edges_at
                          (generate_rv_graph graph vehicles requests current_time
                             max_capacity max_delay True top_k) (rid r)))
       \<and> (\<forall>n. set (edges_at
                     (generate_rv_graph graph vehicles requests current_time max_capacity
                        max_delay True top_k) n)
                \<subseteq> set (edges_at
                     (build_rv_graph graph vehicles requests current_time max_capacity
                        max_delay) n))"
proof -
  let ?B = "build_rv_graph graph vehicles requests current_time max_capacity max_delay"
  let ?G = "generate_rv_graph graph vehicles requests current_time max_capacity
              max_delay True top_k"
  let ?C = "copy ?B"
  have G: "?G = foldl (prune_node top_k) ?C (rv_nodes ?C)"
    by (simp add: generate_rv_graph_def prune_edges_def Let_def)
  note inv = build_rv_graph_invariants[OF rs vs, of graph current_time max_capacity max_delay]
  note cl = build_rv_graph_closed[of graph vehicles requests current_time max_capacity
      max_delay]
  have sC: "simple_graph ?C" by (rule copy_simple)
  have tC: "typed_graph ?C" by (rule copy_typed[OF inv(1) cl inv(2)])
  from inv(3) copy_nodes[of ?B]
  have nodes: "rid ` set requests \<union> vid ` set vehicles \<subseteq> set (rv_nodes ?C)"
    by (rule order_trans)
  have cap: "length (own_edges ?G n) \<le> top_k" if "n \<in> set (rv_nodes ?C)" for n
    using that by (simp add: G foldl_prune_node_bound)
  have a: "\<forall>r\<in>set requests.
      length (filter (\<lambda>e. e_edge_type (snd (snd e)) = rr) (edges_at ?G (rid r))) \<le> top_k"
  proof
    fix r assume r: "r \<in> set requests"
    with nodes have "rid r \<in> set (rv_nodes ?C)" by auto
    from cap[OF this] r rs
    show "length (filter (\<lambda>e. e_edge_type (snd (snd e)) = rr) (edges_at ?G (rid r))) \<le> top_k"
      by (simp add: own_edges_def)
  qed
  have b: "\<forall>v\<in>set vehicles.
      length (filter (\<lambda>e. e_edge_type (snd (snd e)) = rv) (edges_at ?G (vid v))) \<le> top_k"
  proof
    fix v assume v: "v \<in> set vehicles"
    with nodes have "vid v \<in> set (rv_nodes ?C)" by auto
    from cap[OF this] v vs
    show "length (filter (\<lambda>e. e_edge_type (snd (snd e)) = rv) (edges_at ?G (vid v))) \<le> top_k"
      by (simp add: own_edges_def)
  qed
  have c: "\<forall>v\<in>set vehicles. smallest_kept ?B ?G top_k (vid v)"
  proof
    fix v assume v: "v \<in> set vehicles"
    with nodes have n: "vid v \<in> set (rv_nodes ?C)" by auto
    from v vs have nr: "\<not> starts_with_r (vid v)" by simp
    from foldl_prune_node_smallest[OF sC tC nr n, of top_k]
    have "mset (own_edges ?G (vid v))
        = mset (take top_k (sort_key (\<lambda>e. e_travel_time (snd (snd e)))
                  (own_edges ?C (vid v))))"
      by (simp only: G)
    from smallest_kept_of_take[OF this own_edges_copy[OF inv(1) cl]
        own_edges_distinct[OF sC] own_edges_distinct[OF inv(1)]]
    show "smallest_kept ?B ?G top_k (vid v)"
      by (simp add: smallest_kept_def Let_def)
  qed
  have d: "\<forall>r\<in>set requests. \<forall>e\<in>set (edges_at ?B (rid r)).
      e_edge_type (snd (snd e)) = rr
      \<and> length (rivals ?B (rid r) e) < top_k
      \<and> length (rivals ?B (fst (snd e)) (reverse_edge e)) < top_k
      \<longrightarrow> e \<in> set (edges_at ?G (rid r))"
  proof (intro ballI impI)
    fix r e
    assume r: "r \<in> set requests" and e: "e \<in> set (edges_at ?B (rid r))"
      and h: "e_edge_type (snd (snd e)) = rr
      \<and> length (rivals ?B (rid r) e) < top_k
      \<and> length (rivals ?B (fst (snd e)) (reverse_edge e)) < top_k"
    from r rs e h have "e \<in> set (own_edges ?B (rid r))" by (simp add: own_edges_def)
    then have 1: "e \<in> set (own_edges ?C (rid r))"
      by (simp only: own_edges_copy[OF inv(1) cl])
    from h have 2: "length (rivals ?C (rid r) e) < top_k"
      by (simp only: rivals_copy[OF inv(1) cl])
    from h have 3: "length (rivals ?C (fst (snd e)) (reverse_edge e)) < top_k"
      by (simp only: rivals_copy[OF inv(1) cl])
    from kept_by_foldl_prune_node[OF sC 1 2 3, of "rv_nodes ?C"]
    have "e \<in> set (own_edges ?G (rid r))" by (simp only: G)
    then show "e \<in> set (edges_at ?G (rid r))" by (simp add: own_edges_def)
  qed
  have f: "\<forall>n. set (edges_at ?G n) \<subseteq> set (edges_at ?B n)"
  proof
    fix n
    have "set (edges_at ?G n) \<subseteq> set (edges_at ?C n)"
      by (simp only: G edges_at_foldl_prune_node)
    then show "set (edges_at ?G n) \<subseteq> set (edges_at ?B n)"
      by (simp only: edges_at_copy[OF inv(1) cl])
  qed
  from a b c d f show ?thesis by (intro conjI)
qed

lemma rr_q1_q2_built:
  "(''r1'', ''r2'', \<lparr>e_travel_time = 1, e_stops = None, e_edge_type = rr\<rparr>)
     \<in> set (edges_at (build_rv_graph line_road [v_empty] [q1, q2] 0 2 1000) (rid q1))
   \<and> length (rivals (build_rv_graph line_road [v_empty] [q1, q2] 0 2 1000) (rid q1)
       (''r1'', ''r2'', \<lparr>e_travel_time = 1, e_stops = None, e_edge_type = rr\<rparr>)) < 1
   \<and> length (rivals (build_rv_graph line_road [v_empty] [q1, q2] 0 2 1000) ''r2''
       (reverse_edge
          (''r1'', ''r2'', \<lparr>e_travel_time = 1, e_stops = None, e_edge_type = rr\<rparr>))) < 1"
  by code_simp

theorem generate_rv_graph_pruned_degrees_witness:
  "starts_with_r (rid q1) \<and> starts_with_r (rid q2) \<and> \<not> starts_with_r (vid v_empty)
   \<and> length (filter (\<lambda>e. e_edge_type (snd (snd e)) = rv)
        (edges_at (generate_rv_graph line_road [v_empty] [q1, q2] 0 2 1000 True 1)
           (vid v_empty))) \<le> 1
   \<and> smallest_kept (build_rv_graph line_road [v_empty] [q1, q2] 0 2 1000)
        (generate_rv_graph line_road [v_empty] [q1, q2] 0 2 1000 True 1) 1 (vid v_empty)
   \<and> (''r1'', ''r2'', \<lparr>e_travel_time = 1, e_stops = None, e_edge_type = rr\<rparr>)
        \<in> set (edges_at (build_rv_graph line_road [v_empty] [q1, q2] 0 2 1000) (rid q1))
   \<and> length (rivals (build_rv_graph line_road [v_empty] [q1, q2] 0 2 1000) (rid q1)
       (''r1'', ''r2'', \<lparr>e_travel_time = 1, e_stops = None, e_edge_type = rr\<rparr>)) < 1
   \<and> length (rivals (build_rv_graph line_road [v_empty] [q1, q2] 0 2 1000) ''r2''
       (reverse_edge
          (''r1'', ''r2'', \<lparr>e_travel_time = 1, e_stops = None, e_edge_type = rr\<rparr>))) < 1
   \<and> (''r1'', ''r2'', \<lparr>e_travel_time = 1, e_stops = None, e_edge_type = rr\<rparr>)
        \<in> set (edges_at (generate_rv_graph line_road [v_empty] [q1, q2] 0 2 1000 True 1)
                 (rid q1))
   \<and> map fst (rv_edges (generate_rv_graph line_road [v_empty] [q1, q2] 0 2 1000 True 1))
       = [''r1'', ''r1'']"
proof -
  let ?e = "(''r1'', ''r2'', \<lparr>e_travel_time = 1, e_stops = None, e_edge_type = rr\<rparr>)"
  have rs: "\<forall>r\<in>set [q1, q2]. starts_with_r (rid r)"
    by (simp add: starts_with_r_def q1_def q2_def)
  have vs: "\<forall>v\<in>set [v_empty]. \<not> starts_with_r (vid v)"
    by (simp add: starts_with_r_def v_empty_def)
  note th = generate_rv_graph_pruned_degrees[OF rs vs, of line_road 0 2 1000 1]
  from th have cap: "length (filter (\<lambda>e. e_edge_type (snd (snd e)) = rv)
        (edges_at (generate_rv_graph line_road [v_empty] [q1, q2] 0 2 1000 True 1)
           (vid v_empty))) \<le> 1"
    by simp
  from th have sk: "smallest_kept (build_rv_graph line_road [v_empty] [q1, q2] 0 2 1000)
        (generate_rv_graph line_road [v_empty] [q1, q2] 0 2 1000 True 1) 1 (vid v_empty)"
    by simp
  from th have "\<forall>e\<in>set (edges_at (build_rv_graph line_road [v_empty] [q1, q2] 0 2 1000)
                    (rid q1)).
              e_edge_type (snd (snd e)) = rr
              \<and> length (rivals (build_rv_graph line_road [v_empty] [q1, q2] 0 2 1000)
                   (rid q1) e) < 1
              \<and> length (rivals (build_rv_graph line_road [v_empty] [q1, q2] 0 2 1000)
                   (fst (snd e)) (reverse_edge e)) < 1
              \<longrightarrow> e \<in> set (edges_at
                     (generate_rv_graph line_road [v_empty] [q1, q2] 0 2 1000 True 1)
                     (rid q1))"
    by simp
  from this[THEN bspec, of ?e] rr_q1_q2_built
  have kept: "?e \<in> set (edges_at
                     (generate_rv_graph line_road [v_empty] [q1, q2] 0 2 1000 True 1)
                     (rid q1))"
    by simp
  have ids: "starts_with_r (rid q1)" "starts_with_r (rid q2)" "\<not> starts_with_r (vid v_empty)"
    using rs vs by simp_all
  have edges: "map fst (rv_edges (generate_rv_graph line_road [v_empty] [q1, q2] 0 2 1000 True 1))
       = [''r1'', ''r1'']"
    unfolding generate_v_empty_q1_q2 by simp
  from rr_q1_q2_built have b1: "?e
        \<in> set (edges_at (build_rv_graph line_road [v_empty] [q1, q2] 0 2 1000) (rid q1))"
    and b2: "length (rivals (build_rv_graph line_road [v_empty] [q1, q2] 0 2 1000) (rid q1)
       ?e) < 1"
    and b3: "length (rivals (build_rv_graph line_road [v_empty] [q1, q2] 0 2 1000) ''r2''
       (reverse_edge ?e)) < 1"
    by blast+
  show ?thesis
    by (intro conjI ids cap sk b1 b2 b3 kept edges)
qed

section \<open>Properties of the greedy assignment\<close>

lemma consider_trip_ok:
  assumes ok: "best_ok g S X st" and rdy: "trip_ready g v t"
  shows "\<exists>st'. consider_trip g S v st t = Inr st' \<and> best_ok g S (insert (v, t) X) st'"
proof -
  from rdy obtain nd where nd: "rtv_node g t = Some nd" by (auto simp: trip_ready_def)
  show ?thesis
  proof (cases "open_trip g S t")
    case False
    with nd have "consider_trip g S v st t = Inr st"
      by (auto simp: consider_trip_def open_trip_def is_trip_def requests_of_def)
    moreover from ok False have "best_ok g S (insert (v, t) X) st"
      by (auto simp: best_ok_def split: option.splits)
    ultimately show ?thesis by simp
  next
    case True
    with nd have ty: "node_type nd = type_trip" and fr: "node_requests nd \<inter> S = {}"
      and rq: "requests_of g t = node_requests nd"
      by (auto simp: open_trip_def is_trip_def requests_of_def)
    from True rdy rq obtain c where c: "rtv_travel_time g v t = Some c"
      and ne: "node_requests nd \<noteq> {}" and fin: "finite (node_requests nd)"
      by (auto simp: trip_ready_def open_trip_def)
    from ne fin have card: "card (node_requests nd) \<noteq> 0" by simp
    have rel: "cost_div (Finite c) (card (node_requests nd)) = Finite (relative_cost g v t)"
      by (simp add: relative_cost_def c rq)
    show ?thesis
    proof (cases "cost_lt (Finite (relative_cost g v t)) (snd st)")
      case lt: True
      with nd ty fr card c rel
      have r: "consider_trip g S v st t = Inr (Some (v, t), Finite (relative_cost g v t))"
        by (simp add: consider_trip_def Let_def)
      have "best_ok g S (insert (v, t) X) (Some (v, t), Finite (relative_cost g v t))"
      proof (cases "fst st")
        case None
        with ok True show ?thesis by (auto simp: best_ok_def)
      next
        case (Some b)
        with ok have m: "snd st = Finite (relative_cost g (fst b) (snd b))"
          and mn: "\<forall>p\<in>X. open_trip g S (snd p)
                \<longrightarrow> relative_cost g (fst b) (snd b) \<le> relative_cost g (fst p) (snd p)"
          by (simp_all add: best_ok_def)
        from lt m have "relative_cost g v t < relative_cost g (fst b) (snd b)" by simp
        with mn True show ?thesis by (fastforce simp: best_ok_def)
      qed
      with r show ?thesis by simp
    next
      case nlt: False
      with nd ty fr card c rel have r: "consider_trip g S v st t = Inr st"
        by (simp add: consider_trip_def Let_def)
      have "best_ok g S (insert (v, t) X) st"
      proof (cases "fst st")
        case None
        with ok have "snd st = Infinity" by (simp add: best_ok_def)
        with nlt show ?thesis by simp
      next
        case (Some b)
        with ok have m: "snd st = Finite (relative_cost g (fst b) (snd b))"
          by (simp add: best_ok_def)
        with nlt have "relative_cost g (fst b) (snd b) \<le> relative_cost g v t" by simp
        with ok Some show ?thesis by (auto simp: best_ok_def)
      qed
      with r show ?thesis by simp
    qed
  qed
qed

lemma scan_trips_ok:
  assumes "best_ok g S X st" and "\<forall>t\<in>set ts. trip_ready g v t"
  shows "\<exists>st'. scan_trips g S v st ts = Inr st' \<and> best_ok g S (X \<union> {v} \<times> set ts) st'"
  using assms
proof (induction ts arbitrary: st X)
  case Nil
  then show ?case by simp
next
  case (Cons t ts)
  from Cons.prems have "trip_ready g v t" by simp
  from consider_trip_ok[OF Cons.prems(1) this] obtain st1
    where 1: "consider_trip g S v st t = Inr st1" "best_ok g S (insert (v, t) X) st1" by blast
  from Cons.prems have "\<forall>t\<in>set ts. trip_ready g v t" by simp
  from Cons.IH[OF 1(2) this] obtain st'
    where 2: "scan_trips g S v st1 ts = Inr st'"
      "best_ok g S (insert (v, t) X \<union> {v} \<times> set ts) st'" by blast
  have "insert (v, t) X \<union> {v} \<times> set ts = X \<union> {v} \<times> set (t # ts)" by auto
  with 1 2 show ?case by simp
qed

lemma scan_vehicles_ok:
  assumes "best_ok g S X st" and "\<forall>v\<in>set vs. \<forall>t\<in>set (rtv_adj g v). trip_ready g v t"
  shows "\<exists>st'. scan_vehicles g S st vs = Inr st'
          \<and> best_ok g S (X \<union> {(v, t). v \<in> set vs \<and> t \<in> set (rtv_adj g v)}) st'"
  using assms
proof (induction vs arbitrary: st X)
  case Nil
  then show ?case by simp
next
  case (Cons v vs)
  from Cons.prems have "\<forall>t\<in>set (rtv_adj g v). trip_ready g v t" by simp
  from scan_trips_ok[OF Cons.prems(1) this] obtain st1
    where 1: "scan_trips g S v st (rtv_adj g v) = Inr st1"
      "best_ok g S (X \<union> {v} \<times> set (rtv_adj g v)) st1" by blast
  from Cons.prems have "\<forall>v\<in>set vs. \<forall>t\<in>set (rtv_adj g v). trip_ready g v t" by simp
  from Cons.IH[OF 1(2) this] obtain st'
    where 2: "scan_vehicles g S st1 vs = Inr st'"
      "best_ok g S (X \<union> {v} \<times> set (rtv_adj g v)
          \<union> {(v, t). v \<in> set vs \<and> t \<in> set (rtv_adj g v)}) st'" by blast
  have "X \<union> {v} \<times> set (rtv_adj g v) \<union> {(v, t). v \<in> set vs \<and> t \<in> set (rtv_adj g v)}
      = X \<union> {(u, t). u \<in> set (v # vs) \<and> t \<in> set (rtv_adj g u)}" by auto
  with 1 2 show ?case by simp
qed

lemma mark_requests_ok:
  assumes "\<forall>n\<in>set ns. rtv_node g n \<noteq> None"
  shows "mark_requests g S ns
     = Inr (S \<union> {n \<in> set ns. \<exists>nd. rtv_node g n = Some nd \<and> node_type nd = type_request})"
  using assms
proof (induction ns arbitrary: S)
  case Nil
  then show ?case by simp
next
  case (Cons n ns)
  from Cons.prems obtain nd where nd: "rtv_node g n = Some nd" by auto
  from Cons.prems have "\<forall>n\<in>set ns. rtv_node g n \<noteq> None" by simp
  note ih = Cons.IH[OF this]
  show ?case
  proof (cases "node_type nd = type_request")
    case True
    with nd ih[of "insert n S"] show ?thesis by auto
  next
    case False
    with nd ih[of S] show ?thesis by auto
  qed
qed


lemma positive_degree_nodes:
  assumes "\<forall>v\<in>set vehicles. vid v \<in> set (rtv_nodes g)"
  shows "positive_degree g vehicles
           = Inr (map vid (filter (\<lambda>v. length (rtv_adj g (vid v)) > 0) vehicles))"
  using assms by (induction vehicles) (simp_all add: degree_def)

lemma positive_degree_unknown:
  assumes "v \<in> set vehicles" "vid v \<notin> set (rtv_nodes g)"
  shows "positive_degree g vehicles = Inl TypeError"
  using assms
proof (induction vehicles)
  case Nil
  then show ?case by simp
next
  case (Cons a vehicles)
  show ?case
  proof (cases "vid a \<in> set (rtv_nodes g)")
    case False
    then show ?thesis by (simp add: degree_def)
  next
    case True
    with Cons.prems have "v \<in> set vehicles" by auto
    from Cons.IH[OF this Cons.prems(2)] True show ?thesis by (simp add: degree_def)
  qed
qed

lemma greedy_assignment_unknown_vehicle:
  assumes "v \<in> set vehicles" "vid v \<notin> set (rtv_nodes g)"
  shows "greedy_assignment g order vehicles = Inl TypeError"
  by (simp add: greedy_assignment_def positive_degree_unknown[OF assms])

lemma wf_rtv_nodes:
  assumes "wf_rtv g vehicles"
  shows "\<forall>v\<in>set vehicles. vid v \<in> set (rtv_nodes g)"
  using assms unfolding wf_rtv_def by blast

lemma wf_rtv_at:
  assumes "wf_rtv g vehicles" "v \<in> vid ` set vehicles" "t \<in> set (rtv_adj g v)"
  shows "v \<noteq> []" and "rtv_node g t \<noteq> None"
    and "is_trip g t \<Longrightarrow> t \<noteq> [] \<and> rtv_travel_time g v t \<noteq> None \<and> requests_of g t \<noteq> {}
              \<and> (\<forall>n\<in>set (rtv_adj g t). rtv_node g n \<noteq> None)
              \<and> requests_of g t
                  = {n \<in> set (rtv_adj g t).
                       \<exists>nd. rtv_node g n = Some nd \<and> node_type nd = type_request}"
proof -
  from assms(2) obtain x where x: "x \<in> set vehicles" "v = vid x" by auto
  from assms(1) x(1) have v: "vid x \<noteq> []"
    and all: "\<forall>t\<in>set (rtv_adj g (vid x)).
           rtv_node g t \<noteq> None \<and>
           (is_trip g t \<longrightarrow>
              t \<noteq> [] \<and> rtv_travel_time g (vid x) t \<noteq> None \<and> requests_of g t \<noteq> {}
              \<and> (\<forall>n\<in>set (rtv_adj g t). rtv_node g n \<noteq> None)
              \<and> requests_of g t
                  = {n \<in> set (rtv_adj g t).
                       \<exists>nd. rtv_node g n = Some nd \<and> node_type nd = type_request})"
    unfolding wf_rtv_def by blast+
  from v x show "v \<noteq> []" by simp
  from all assms(3) x(2) show "rtv_node g t \<noteq> None" by blast
  from all assms(3) x(2)
  show "is_trip g t \<Longrightarrow> t \<noteq> [] \<and> rtv_travel_time g v t \<noteq> None \<and> requests_of g t \<noteq> {}
              \<and> (\<forall>n\<in>set (rtv_adj g t). rtv_node g n \<noteq> None)
              \<and> requests_of g t
                  = {n \<in> set (rtv_adj g t).
                       \<exists>nd. rtv_node g n = Some nd \<and> node_type nd = type_request}"
    by blast
qed

lemma wf_rtv_ready:
  assumes "wf_rtv g vehicles" "v \<in> vid ` set vehicles" "t \<in> set (rtv_adj g v)"
  shows "trip_ready g v t"
proof -
  note w = wf_rtv_at[OF assms]
  have "finite (requests_of g t)" if "is_trip g t"
  proof -
    from w(3)[OF that] have "requests_of g t
        = {n \<in> set (rtv_adj g t). \<exists>nd. rtv_node g n = Some nd \<and> node_type nd = type_request}"
      by blast
    then have "requests_of g t \<subseteq> set (rtv_adj g t)" by blast
    then show ?thesis by (rule finite_subset) simp
  qed
  with w show ?thesis unfolding trip_ready_def by blast
qed

lemma wf_rtv_mark:
  assumes "wf_rtv g vehicles" "v \<in> vid ` set vehicles" "t \<in> set (rtv_adj g v)" "is_trip g t"
  shows "mark_requests g S (rtv_adj g t) = Inr (S \<union> requests_of g t)"
    and "t \<noteq> []" and "v \<noteq> []"
proof -
  note w = wf_rtv_at[OF assms(1,2,3)]
  from w(3)[OF assms(4)] have a: "\<forall>n\<in>set (rtv_adj g t). rtv_node g n \<noteq> None"
    and b: "requests_of g t = {n \<in> set (rtv_adj g t).
                       \<exists>nd. rtv_node g n = Some nd \<and> node_type nd = type_request}"
    and c: "t \<noteq> []"
    by blast+
  from mark_requests_ok[OF a, of S] b
  show "mark_requests g S (rtv_adj g t) = Inr (S \<union> requests_of g t)" by simp
  from c show "t \<noteq> []" .
  from w(1) show "v \<noteq> []" .
qed

lemma greedy_loop_refines:
  assumes wf: "wf_rtv g vehicles" and ord: "\<forall>xs. set (order xs) = set xs"
  shows "set U \<subseteq> vid ` set vehicles
     \<Longrightarrow> \<exists>A'. greedy_loop g order U S A = Inr A' \<and> greedy_spec g (set U) S A A'"
proof (induction "length U" arbitrary: U S A rule: less_induct)
  case less
  show ?case
  proof (cases "U = []")
    case True
    have "greedy_spec g (set U) S A A"
      by (rule greedy_spec.stop) (simp add: True eligible_def)
    with True show ?thesis by (simp add: greedy_loop.simps[of g order U S A])
  next
    case False
    let ?X = "{(v, t). v \<in> set (order U) \<and> t \<in> set (rtv_adj g v)}"
    have ok0: "best_ok g S {} (None, Infinity)" by (simp add: best_ok_def)
    from less.prems ord
    have rdy: "\<forall>v\<in>set (order U). \<forall>t\<in>set (rtv_adj g v). trip_ready g v t"
      by (auto intro: wf_rtv_ready[OF wf])
    from scan_vehicles_ok[OF ok0 rdy] obtain st
      where sc: "scan_vehicles g S (None, Infinity) (order U) = Inr st"
        and ok: "best_ok g S ?X st" by auto
    have el: "eligible g (set U) S v t \<longleftrightarrow> (v, t) \<in> ?X \<and> open_trip g S t" for v t
      using ord by (auto simp: eligible_def open_trip_def)
    show ?thesis
    proof (cases "fst st")
      case None
      with ok have "\<forall>p\<in>?X. \<not> open_trip g S (snd p)" by (simp add: best_ok_def)
      then have "\<not> eligible g (set U) S v t" for v t by (auto simp: el)
      then have "greedy_spec g (set U) S A A" by (rule greedy_spec.stop)
      moreover from None obtain m where "st = (None, m)" by (cases st) simp
      with sc have "scan_vehicles g S (None, Infinity) (order U) = Inr (None, m)" by simp
      with False have "greedy_loop g order U S A = Inr A"
        by (simp add: greedy_loop.simps[of g order U S A])
      ultimately show ?thesis by simp
    next
      case (Some b)
      obtain bv bt where b: "b = (bv, bt)" by (cases b)
      with ok Some have inX: "(bv, bt) \<in> ?X" and op: "open_trip g S bt"
        and mn: "\<forall>p\<in>?X. open_trip g S (snd p)
                \<longrightarrow> relative_cost g bv bt \<le> relative_cost g (fst p) (snd p)"
        by (simp_all add: best_ok_def)
      from inX ord have bvU: "bv \<in> set U" and adj: "bt \<in> set (rtv_adj g bv)" by auto
      from bvU less.prems have bvV: "bv \<in> vid ` set vehicles" by auto
      from op have trip: "is_trip g bt" by (simp add: open_trip_def)
      note m = wf_rtv_mark[OF wf bvV adj trip]
      from bvU have "length (removeAll bv U) < length U" by (rule length_removeAll_less)
      moreover from less.prems have "set (removeAll bv U) \<subseteq> vid ` set vehicles" by auto
      ultimately obtain A' where
        rec: "greedy_loop g order (removeAll bv U) (S \<union> requests_of g bt) (A(bv \<mapsto> bt)) = Inr A'"
        and sp: "greedy_spec g (set (removeAll bv U)) (S \<union> requests_of g bt) (A(bv \<mapsto> bt)) A'"
        using less.hyps by blast
      from Some b obtain mc where "st = (Some (bv, bt), mc)" by (cases st) simp
      with sc have "scan_vehicles g S (None, Infinity) (order U) = Inr (Some (bv, bt), mc)"
        by simp
      with False bvU m rec have run: "greedy_loop g order U S A = Inr A'"
        by (simp add: greedy_loop.simps[of g order U S A])
      have e: "eligible g (set U) S bv bt" using inX op by (simp add: el)
      have least: "relative_cost g bv bt \<le> relative_cost g v' t'"
        if "eligible g (set U) S v' t'" for v' t'
        using that mn by (auto simp: el)
      from sp have "greedy_spec g (set U - {bv}) (S \<union> requests_of g bt) (A(bv \<mapsto> bt)) A'"
        by simp
      with e least have "greedy_spec g (set U) S A A'" by (rule greedy_spec.step)
      with run show ?thesis by simp
    qed
  qed
qed

lemma eligible_pool:
  assumes "eligible g U S v t" "\<forall>v. rtv_adj g v \<noteq> [] \<longrightarrow> (v \<in> U \<longleftrightarrow> v \<in> U')"
  shows "eligible g U' S v t"
proof -
  from assms(1) have "t \<in> set (rtv_adj g v)" by (simp add: eligible_def)
  then have "rtv_adj g v \<noteq> []" by auto
  with assms show ?thesis by (simp add: eligible_def)
qed

lemma greedy_spec_pool:
  "greedy_spec g U S A A' \<Longrightarrow> (\<forall>v. rtv_adj g v \<noteq> [] \<longrightarrow> (v \<in> U \<longleftrightarrow> v \<in> U'))
     \<Longrightarrow> greedy_spec g U' S A A'"
proof (induction arbitrary: U' rule: greedy_spec.induct)
  case (stop unassigned served assignment)
  from stop.prems have conv: "\<forall>v. rtv_adj g v \<noteq> [] \<longrightarrow> (v \<in> U' \<longleftrightarrow> v \<in> unassigned)" by simp
  have "\<not> eligible g U' served v t" for v t
    using eligible_pool[OF _ conv] stop.hyps by blast
  then show ?case by (rule greedy_spec.stop)
next
  case (step unassigned served v t assignment final)
  from step.prems have conv: "\<forall>v. rtv_adj g v \<noteq> [] \<longrightarrow> (v \<in> U' \<longleftrightarrow> v \<in> unassigned)" by simp
  from eligible_pool[OF step.hyps(1) step.prems] have e: "eligible g U' served v t" .
  have least: "relative_cost g v t \<le> relative_cost g v' t'"
    if "eligible g U' served v' t'" for v' t'
    using eligible_pool[OF that conv] by (rule step.hyps(2))
  from step.prems
  have "\<forall>u. rtv_adj g u \<noteq> [] \<longrightarrow> (u \<in> unassigned - {v} \<longleftrightarrow> u \<in> U' - {v})" by auto
  from step.IH[OF this] have "greedy_spec g (U' - {v}) (served \<union> requests_of g t)
      (assignment(v \<mapsto> t)) final" .
  with e least show ?case by (rule greedy_spec.step)
qed

lemma greedy_spec_disjoint:
  "greedy_spec g U S A A' \<Longrightarrow> dom A \<inter> U = {}
     \<Longrightarrow> (\<forall>v t. A v = Some t \<longrightarrow> requests_of g t \<subseteq> S) \<Longrightarrow> disjoint_trips g A
     \<Longrightarrow> disjoint_trips g A'"
proof (induction rule: greedy_spec.induct)
  case (stop unassigned served assignment)
  then show ?case by simp
next
  case (step unassigned served v t assignment final)
  from step.hyps(1) have vU: "v \<in> unassigned" and fresh: "requests_of g t \<inter> served = {}"
    by (simp_all add: eligible_def)
  from vU step.prems(1) have vA: "assignment v = None" by auto
  have 1: "dom (assignment(v \<mapsto> t)) \<inter> (unassigned - {v}) = {}"
    using step.prems(1) by auto
  have 2: "\<forall>u s. (assignment(v \<mapsto> t)) u = Some s
            \<longrightarrow> requests_of g s \<subseteq> served \<union> requests_of g t"
    using step.prems(2) by auto
  have 3: "disjoint_trips g (assignment(v \<mapsto> t))"
    unfolding disjoint_trips_def
  proof (intro allI impI)
    fix v1 v2 t1 t2
    assume a: "v1 \<noteq> v2 \<and> (assignment(v \<mapsto> t)) v1 = Some t1
                \<and> (assignment(v \<mapsto> t)) v2 = Some t2"
    show "requests_of g t1 \<inter> requests_of g t2 = {}"
    proof (cases "v1 = v")
      case True
      with a have "t1 = t" "assignment v2 = Some t2" by auto
      with step.prems(2) fresh show ?thesis by blast
    next
      case n1: False
      show ?thesis
      proof (cases "v2 = v")
        case True
        with a n1 have "t2 = t" "assignment v1 = Some t1" by auto
        with step.prems(2) fresh show ?thesis by blast
      next
        case False
        with a n1 step.prems(3) show ?thesis by (auto simp: disjoint_trips_def)
      qed
    qed
  qed
  from step.IH[OF 1 2 3] show ?case .
qed

text \<open>
  Claim C8. Let the RTV graph be well formed (\<open>wf_rtv\<close>: in particular every vehicle is
  a node of the graph; for a vehicle that is not, the code raises \<^verbatim>\<open>TypeError\<close>, lemma
  \<open>greedy_assignment_unknown_vehicle\<close>) and let \<open>order\<close> be any order
  in which the set of unassigned vehicles is run through. Then \<open>greedy_assignment\<close>
  raises nothing and returns an assignment that the greedy procedure of the specification
  produces from the pool of all vehicles, with no request served and nothing assigned: at
  each step it assigns a pair of least relative cost among the eligible pairs, marks the
  trip's requests served and removes the vehicle, and it ends exactly when no pair is
  eligible. In the returned assignment, which maps a vehicle to one trip, any two trips of
  different vehicles share no request.
\<close>

theorem greedy_assignment_refines_greedy_spec:
  assumes wf: "wf_rtv g vehicles" and ord: "\<forall>xs. set (order xs) = set xs"
  shows "\<exists>A. greedy_assignment g order vehicles = Inr A
           \<and> greedy_spec g (vid ` set vehicles) {} Map.empty A
           \<and> (\<forall>v1 v2 t1 t2. v1 \<noteq> v2 \<and> A v1 = Some t1 \<and> A v2 = Some t2
                \<longrightarrow> requests_of g t1 \<inter> requests_of g t2 = {})"
proof -
  let ?U = "remdups (map vid (filter (\<lambda>v. length (rtv_adj g (vid v)) > 0) vehicles))"
  have sub: "set ?U \<subseteq> vid ` set vehicles" by auto
  have pd: "positive_degree g vehicles
      = Inr (map vid (filter (\<lambda>v. length (rtv_adj g (vid v)) > 0) vehicles))"
    by (rule positive_degree_nodes[OF wf_rtv_nodes[OF wf]])
  from greedy_loop_refines[OF wf ord sub, of "{}" Map.empty] obtain A
    where run: "greedy_assignment g order vehicles = Inr A"
      and sp: "greedy_spec g (set ?U) {} Map.empty A"
    by (auto simp: greedy_assignment_def pd)
  have "\<forall>v. rtv_adj g v \<noteq> [] \<longrightarrow> (v \<in> set ?U \<longleftrightarrow> v \<in> vid ` set vehicles)" by auto
  from greedy_spec_pool[OF sp this]
  have sp': "greedy_spec g (vid ` set vehicles) {} Map.empty A" .
  have "disjoint_trips g A"
    by (rule greedy_spec_disjoint[OF sp']) (simp_all add: disjoint_trips_def)
  with run sp' show ?thesis unfolding disjoint_trips_def by blast
qed

lemma wf_rtv_demo: "wf_rtv rtv_demo [v_empty, v_second]"
  by (auto simp: wf_rtv_def rtv_demo_def is_trip_def requests_of_def v_empty_def v_second_def)

lemma greedy_rtv_demo:
  "case greedy_assignment rtv_demo (\<lambda>xs. xs) [v_empty, v_second] of
     Inl e \<Rightarrow> False
   | Inr A \<Rightarrow> A ''v2'' = Some ''t1'' \<and> A ''v1'' = Some ''t3''"
  by code_simp

theorem greedy_assignment_refines_greedy_spec_witness:
  "wf_rtv rtv_demo [v_empty, v_second]
   \<and> (\<exists>A. greedy_assignment rtv_demo (\<lambda>xs. xs) [v_empty, v_second] = Inr A
          \<and> A ''v2'' = Some ''t1'' \<and> A ''v1'' = Some ''t3''
          \<and> greedy_spec rtv_demo (vid ` set [v_empty, v_second]) {} Map.empty A)
   \<and> requests_of rtv_demo ''t1'' \<inter> requests_of rtv_demo ''t3'' = {}"
proof -
  have ord: "\<forall>xs::string list. set ((\<lambda>xs. xs) xs) = set xs" by simp
  from greedy_assignment_refines_greedy_spec[OF wf_rtv_demo ord] obtain A
    where A: "greedy_assignment rtv_demo (\<lambda>xs. xs) [v_empty, v_second] = Inr A"
      "greedy_spec rtv_demo (vid ` set [v_empty, v_second]) {} Map.empty A"
      and dj: "\<forall>v1 v2 t1 t2. v1 \<noteq> v2 \<and> A v1 = Some t1 \<and> A v2 = Some t2
                \<longrightarrow> requests_of rtv_demo t1 \<inter> requests_of rtv_demo t2 = {}"
    by blast
  have "A ''v2'' = Some ''t1'' \<and> A ''v1'' = Some ''t3''"
    using greedy_rtv_demo unfolding A(1) by (simp only: sum.case)
  then have v: "A ''v2'' = Some ''t1''" "A ''v1'' = Some ''t3''" by blast+
  have ne: "''v2'' \<noteq> ''v1''" by simp
  note dj[THEN spec, THEN spec, THEN spec, THEN spec, of "''v2''" "''v1''" "''t1''" "''t3''"]
  with ne v have d: "requests_of rtv_demo ''t1'' \<inter> requests_of rtv_demo ''t3'' = {}"
    by simp
  from A v have ex: "\<exists>A. greedy_assignment rtv_demo (\<lambda>xs. xs) [v_empty, v_second] = Inr A
          \<and> A ''v2'' = Some ''t1'' \<and> A ''v1'' = Some ''t3''
          \<and> greedy_spec rtv_demo (vid ` set [v_empty, v_second]) {} Map.empty A"
    by (intro exI[of _ A] conjI)
  show ?thesis by (rule conjI[OF wf_rtv_demo conjI[OF ex d]])
qed

section \<open>Properties of the integer program\<close>

lemma dict_keys_set: "set (dict_keys xs) = set xs"
  by (simp add: dict_keys_def)

lemma dict_keys_distinct: "distinct (dict_keys xs)"
  by (simp add: dict_keys_def)

lemma distinct_pairs_concat:
  "distinct ts \<Longrightarrow> (\<forall>t. distinct (f t))
     \<Longrightarrow> distinct (concat (map (\<lambda>t. map (Pair t) (f t)) ts))"
proof (induction ts)
  case Nil
  then show ?case by simp
next
  case (Cons t ts)
  then have "distinct (map (Pair t) (f t))" by (simp add: distinct_map inj_on_def)
  moreover from Cons have "distinct (concat (map (\<lambda>t. map (Pair t) (f t)) ts))" by simp
  moreover from Cons.prems(1)
  have "set (map (Pair t) (f t)) \<inter> set (concat (map (\<lambda>t. map (Pair t) (f t)) ts)) = {}"
    by auto
  ultimately show ?case by simp
qed

lemma dict_keys_of_distinct: "distinct xs \<Longrightarrow> dict_keys xs = xs"
  by (simp add: dict_keys_def distinct_remdups_id)

lemma epsilon_keys_set: "set (epsilon_keys g) = tv_edges g"
  by (auto simp: epsilon_keys_def epsilon_entries_def dict_keys_set tv_edges_def)

lemma epsilon_entries_distinct:
  assumes "distinct (rtv_nodes g)" "\<forall>n. distinct (rtv_adj g n)"
  shows "distinct (epsilon_entries g)"
  unfolding epsilon_entries_def
  by (rule distinct_pairs_concat) (simp_all add: assms)

lemma epsilon_entries_keys:
  assumes "distinct (rtv_nodes g)" "\<forall>n. distinct (rtv_adj g n)"
  shows "epsilon_entries g = epsilon_keys g"
  by (simp add: epsilon_keys_def dict_keys_of_distinct[OF epsilon_entries_distinct[OF assms]])

lemma epsilon_keys_distinct: "distinct (epsilon_keys g)"
  by (simp add: epsilon_keys_def dict_keys_distinct)

lemma relevant_edges_set:
  "set (relevant_edges g r) = {e \<in> tv_edges g. r \<in> requests_of g (fst e)}"
  by (auto simp: relevant_edges_def epsilon_keys_set tv_edges_def)

lemma relevant_edges_distinct:
  assumes "distinct (rtv_nodes g)" "\<forall>n. distinct (rtv_adj g n)"
  shows "distinct (relevant_edges g r)"
  unfolding relevant_edges_def
  by (rule distinct_pairs_concat) (simp_all add: assms)

lemma sum_list_eps:
  assumes "distinct es"
  shows "sum_list (map x (map (\<lambda>e. Eps (fst e) (snd e)) es))
           = (\<Sum>e\<in>set es. x (Eps (fst e) (snd e)))"
proof -
  have "sum_list (map x (map (\<lambda>e. Eps (fst e) (snd e)) es))
          = sum_list (map (\<lambda>e. x (Eps (fst e) (snd e))) es)"
    by (simp add: comp_def)
  also from assms have "\<dots> = (\<Sum>e\<in>set es. x (Eps (fst e) (snd e)))"
    by (rule sum_list_distinct_conv_sum_set)
  finally show ?thesis .
qed

lemma build_ilp_vars:
  assumes dn: "distinct (rtv_nodes g)" and da: "\<forall>n. distinct (rtv_adj g n)"
    and dr: "distinct (map rid requests)"
  shows "(\<forall>p\<in>set (ilp_vars (build_ilp g vehicles requests P)). snd p = Binary)
   \<and> distinct (map fst (ilp_vars (build_ilp g vehicles requests P)))
   \<and> set (map fst (ilp_vars (build_ilp g vehicles requests P)))
       = (\<lambda>e. Eps (fst e) (snd e)) ` tv_edges g \<union> Chi ` rid ` set requests"
proof -
  let ?m = "build_ilp g vehicles requests P"
  have names: "map fst (ilp_vars ?m)
      = map (\<lambda>e. Eps (fst e) (snd e)) (epsilon_keys g) @ map Chi (map rid requests)"
    by (simp add: build_ilp_def comp_def epsilon_entries_keys[OF dn da])
  have "inj_on (\<lambda>e. Eps (fst e) (snd e)) A" for A :: "(string \<times> string) set"
    by (rule inj_onI) (auto simp: prod_eq_iff)
  then have "distinct (map (\<lambda>e. Eps (fst e) (snd e)) (epsilon_keys g))"
    by (simp add: distinct_map epsilon_keys_distinct)
  moreover from dr have "distinct (map Chi (map rid requests))"
    by (simp add: distinct_map inj_on_def)
  moreover have "set (map (\<lambda>e. Eps (fst e) (snd e)) (epsilon_keys g))
      \<inter> set (map Chi (map rid requests)) = {}" by auto
  ultimately have "distinct (map fst (ilp_vars ?m))"
    unfolding names by simp
  moreover have "set (map fst (ilp_vars ?m))
       = (\<lambda>e. Eps (fst e) (snd e)) ` tv_edges g \<union> Chi ` rid ` set requests"
    unfolding names by (simp add: epsilon_keys_set image_image)
  moreover have "\<forall>p\<in>set (ilp_vars ?m). snd p = Binary"
    by (auto simp: build_ilp_def)
  ultimately show ?thesis by simp
qed

lemma build_ilp_binary:
  assumes "solution x (build_ilp g vehicles requests P)" "e \<in> set (epsilon_entries g)"
  shows "x (Eps (fst e) (snd e)) = 0 \<or> x (Eps (fst e) (snd e)) = 1"
proof -
  from assms(2)
  have "(Eps (fst e) (snd e), Binary) \<in> set (ilp_vars (build_ilp g vehicles requests P))"
    by (force simp: build_ilp_def)
  with assms(1) have "admits Binary (x (Eps (fst e) (snd e)))"
    unfolding solution_def by force
  then show ?thesis by simp
qed

lemma build_ilp_constraints:
  assumes dn: "distinct (rtv_nodes g)" and da: "\<forall>n. distinct (rtv_adj g n)"
  shows "(\<forall>c\<in>set (ilp_constrs (build_ilp g vehicles requests P)). holds y c)
           \<longleftrightarrow> spec_constraints g vehicles requests y"
proof -
  have veh: "holds y \<lparr>c_terms = map (\<lambda>e. Eps (fst e) (snd e))
                            (filter (\<lambda>e. snd e = vid vd) (epsilon_keys g)),
                c_sense = LessEq, c_rhs = 1\<rparr>
        \<longleftrightarrow> (\<Sum>e\<in>{e \<in> tv_edges g. snd e = vid vd}. y (Eps (fst e) (snd e))) \<le> 1" for vd
  proof -
    have "distinct (filter (\<lambda>e. snd e = vid vd) (epsilon_keys g))"
      by (simp add: epsilon_keys_distinct)
    from sum_list_eps[OF this, of y] show ?thesis
      by (simp add: holds_def epsilon_keys_set)
  qed
  have req: "holds y \<lparr>c_terms = map (\<lambda>e. Eps (fst e) (snd e)) (relevant_edges g (rid r))
                            @ [Chi (rid r)],
                c_sense = Equal, c_rhs = 1\<rparr>
        \<longleftrightarrow> (\<Sum>e\<in>{e \<in> tv_edges g. rid r \<in> requests_of g (fst e)}. y (Eps (fst e) (snd e)))
             + y (Chi (rid r)) = 1" for r
    using sum_list_eps[OF relevant_edges_distinct[OF dn da, of "rid r"], of y]
    by (simp add: holds_def relevant_edges_set)
  show ?thesis
    by (simp add: build_ilp_def spec_constraints_def ball_Un veh req)
qed

lemma build_ilp_objective:
  "objective_value y (build_ilp g vehicles requests P) = spec_objective g requests P y"
proof -
  have "sum_list (map (\<lambda>e. edge_cost g e * y (Eps (fst e) (snd e))) (epsilon_keys g))
      = (\<Sum>e\<in>tv_edges g. edge_cost g e * y (Eps (fst e) (snd e)))"
    using sum_list_distinct_conv_sum_set[OF epsilon_keys_distinct, of _ g]
    by (simp add: epsilon_keys_set)
  moreover have "sum_list (map (\<lambda>r. P * y (Chi (rid r))) requests)
      = P * (\<Sum>r\<leftarrow>requests. y (Chi (rid r)))"
    by (simp add: sum_list_const_mult)
  ultimately show ?thesis
    by (simp add: objective_value_def build_ilp_def spec_objective_def comp_def)
qed

lemma read_solution_cases:
  "read_solution x A ks v = A v
   \<or> (\<exists>t. read_solution x A ks v = Some t \<and> (t, v) \<in> set ks \<and> x (Eps t v) > 0.5)"
proof (induction ks arbitrary: A)
  case Nil
  then show ?case by simp
next
  case (Cons e ks)
  define A' where "A' = (if x (Eps (fst e) (snd e)) > 0.5 then A(snd e \<mapsto> fst e) else A)"
  have unfold: "read_solution x A (e # ks) v = read_solution x A' ks v"
    by (simp add: A'_def)
  from Cons.IH[of A']
  consider "read_solution x A' ks v = A' v"
    | t where "read_solution x A' ks v = Some t" "(t, v) \<in> set ks" "x (Eps t v) > 0.5"
    by blast
  then show ?case
  proof cases
    case 1
    show ?thesis
    proof (cases "x (Eps (fst e) (snd e)) > 0.5 \<and> snd e = v")
      case True
      then have "A' v = Some (fst e)" by (auto simp: A'_def)
      with 1 unfold have "read_solution x A (e # ks) v = Some (fst e)" by simp
      moreover from True have "(fst e, v) \<in> set (e # ks)" by auto
      moreover from True have "x (Eps (fst e) v) > 0.5" by auto
      ultimately show ?thesis by blast
    next
      case False
      then have "A' v = A v" by (auto simp: A'_def)
      with 1 unfold show ?thesis by simp
    qed
  next
    case 2
    with unfold have "read_solution x A (e # ks) v = Some t" "(t, v) \<in> set (e # ks)"
      by simp_all
    with 2(3) show ?thesis by blast
  qed
qed

lemma read_solution_hit:
  "(t, v) \<in> set ks \<Longrightarrow> x (Eps t v) > 0.5
     \<Longrightarrow> \<exists>t'. read_solution x A ks v = Some t' \<and> (t', v) \<in> set ks \<and> x (Eps t' v) > 0.5"
proof (induction ks arbitrary: A)
  case Nil
  then show ?case by simp
next
  case (Cons e ks)
  define A' where "A' = (if x (Eps (fst e) (snd e)) > 0.5 then A(snd e \<mapsto> fst e) else A)"
  have unfold: "read_solution x A (e # ks) v = read_solution x A' ks v"
    by (simp add: A'_def)
  show ?case
  proof (cases "(t, v) \<in> set ks")
    case True
    from Cons.IH[OF True Cons.prems(2), of A'] obtain t'
      where "read_solution x A' ks v = Some t'" "(t', v) \<in> set ks" "x (Eps t' v) > 0.5"
      by blast
    with unfold have "read_solution x A (e # ks) v = Some t' \<and> (t', v) \<in> set (e # ks)
        \<and> x (Eps t' v) > 0.5" by simp
    then show ?thesis by blast
  next
    case False
    with Cons.prems have e: "e = (t, v)" by simp
    with Cons.prems(2) have A: "A' v = Some t" by (simp add: A'_def)
    from read_solution_cases[of x A' ks v]
    consider "read_solution x A' ks v = A' v"
      | t' where "read_solution x A' ks v = Some t'" "(t', v) \<in> set ks" "x (Eps t' v) > 0.5"
      by blast
    then show ?thesis
    proof cases
      case 1
      with A unfold have "read_solution x A (e # ks) v = Some t" by simp
      with Cons.prems show ?thesis by blast
    next
      case 2
      with unfold have "read_solution x A (e # ks) v = Some t' \<and> (t', v) \<in> set (e # ks)
        \<and> x (Eps t' v) > 0.5" by simp
      then show ?thesis by blast
    qed
  qed
qed


lemma one_edge_per_vehicle:
  fixes x :: "var \<Rightarrow> real"
  assumes le: "(\<Sum>e\<in>{e \<in> tv_edges g. snd e = v}. x (Eps (fst e) (snd e))) \<le> 1"
    and bin: "\<forall>e\<in>tv_edges g. x (Eps (fst e) (snd e)) = 0 \<or> x (Eps (fst e) (snd e)) = 1"
    and a: "(t, v) \<in> tv_edges g" "x (Eps t v) = 1"
    and b: "(t', v) \<in> tv_edges g" "x (Eps t' v) = 1"
  shows "t = t'"
proof (rule ccontr)
  assume ne: "t \<noteq> t'"
  let ?E = "{e \<in> tv_edges g. snd e = v}"
  have "finite (tv_edges g)" by (metis epsilon_keys_set List.finite_set)
  then have fin: "finite ?E" by simp
  from a b have sub: "{(t, v), (t', v)} \<subseteq> ?E" by simp
  have nn: "\<forall>e\<in>?E - {(t, v), (t', v)}. 0 \<le> x (Eps (fst e) (snd e))"
  proof
    fix e assume "e \<in> ?E - {(t, v), (t', v)}"
    then have "e \<in> tv_edges g" by simp
    with bin have "x (Eps (fst e) (snd e)) = 0 \<or> x (Eps (fst e) (snd e)) = 1" by blast
    then show "0 \<le> x (Eps (fst e) (snd e))" by auto
  qed
  from ne a b have two: "(\<Sum>e\<in>{(t, v), (t', v)}. x (Eps (fst e) (snd e))) = 2" by simp
  have "(\<Sum>e\<in>{(t, v), (t', v)}. x (Eps (fst e) (snd e)))
      \<le> (\<Sum>e\<in>?E. x (Eps (fst e) (snd e)))"
    by (rule sum_mono2[OF fin sub]) (use nn in blast)
  with two le show False by linarith
qed

lemma optimal_least_spec_objective:
  assumes "optimal x (build_ilp g vehicles requests P)"
    and "solution y (build_ilp g vehicles requests P)"
  shows "spec_objective g requests P x \<le> spec_objective g requests P y"
proof -
  let ?m = "build_ilp g vehicles requests P"
  have "ilp_sense ?m = Minimize" by (simp add: build_ilp_def)
  with assms have "objective_value x ?m \<le> objective_value y ?m"
    unfolding optimal_def better_def by simp
  then show ?thesis by (simp only: build_ilp_objective)
qed

text \<open>
  Claim C9. Let the graph be readable (no \<^verbatim>\<open>KeyError\<close>), with its nodes and the
  neighbours of each node listed once, let no two of the given requests have the same
  id, let every vehicle node next to a trip be one of the given vehicles, and let the
  solver answer with a solution of the model. Then the model is a binary program to be
  minimised: the sense of its objective is \<open>Minimize\<close>, every variable has the type
  \<open>Binary\<close>, and there is exactly one variable \<open>Eps\<close> per T-V edge and one \<open>Chi\<close> per
  request; its
  constraints say, for any values of the variables, that for every vehicle the variables
  of its edges sum to at most 1 and that for every request the variables of the edges of
  the trips that contain it, plus its \<open>Chi\<close>, sum to 1; its objective is the sum of
  \<open>cost(T, v) * Eps(T, v)\<close> plus the penalty times the sum of the \<open>Chi\<close>; and
  \<open>assignment_ilp\<close> returns the assignment that maps a vehicle \<open>v\<close> to a trip \<open>T\<close>
  exactly when \<open>Eps(T, v)\<close> is 1 in the solution.
\<close>

theorem assignment_ilp_program:
  assumes rd: "readable g"
    and dn: "distinct (rtv_nodes g)" and da: "\<forall>n. distinct (rtv_adj g n)"
    and dr: "distinct (map rid requests)"
    and vs: "\<forall>e\<in>tv_edges g. snd e \<in> vid ` set vehicles"
    and sv: "solver (build_ilp g vehicles requests P) (warm_start g greedy) = Some x"
    and sol: "solution x (build_ilp g vehicles requests P)"
  shows "ilp_sense (build_ilp g vehicles requests P) = Minimize
       \<and> (\<forall>p\<in>set (ilp_vars (build_ilp g vehicles requests P)). snd p = Binary)
       \<and> distinct (map fst (ilp_vars (build_ilp g vehicles requests P)))
       \<and> set (map fst (ilp_vars (build_ilp g vehicles requests P)))
           = (\<lambda>e. Eps (fst e) (snd e)) ` tv_edges g \<union> Chi ` rid ` set requests
       \<and> (\<forall>y. (\<forall>c\<in>set (ilp_constrs (build_ilp g vehicles requests P)). holds y c)
                \<longleftrightarrow> spec_constraints g vehicles requests y)
       \<and> (\<forall>y. objective_value y (build_ilp g vehicles requests P)
                = spec_objective g requests P y)
       \<and> (\<exists>A. assignment_ilp solver g vehicles requests greedy P = Inr A
              \<and> (\<forall>v t. A v = Some t \<longleftrightarrow> (t, v) \<in> tv_edges g \<and> x (Eps t v) = 1))"
proof -
  let ?m = "build_ilp g vehicles requests P"
  let ?A = "read_solution x Map.empty (epsilon_keys g)"
  note vars = build_ilp_vars[OF dn da dr, of vehicles P]
  have sense: "ilp_sense ?m = Minimize" by (simp add: build_ilp_def)
  have bin: "\<forall>e\<in>tv_edges g. x (Eps (fst e) (snd e)) = 0 \<or> x (Eps (fst e) (snd e)) = 1"
  proof
    fix e assume "e \<in> tv_edges g"
    then have "e \<in> set (epsilon_entries g)"
      by (simp add: epsilon_entries_keys[OF dn da] epsilon_keys_set)
    from build_ilp_binary[OF sol this]
    show "x (Eps (fst e) (snd e)) = 0 \<or> x (Eps (fst e) (snd e)) = 1" .
  qed
  from sol have "\<forall>c\<in>set (ilp_constrs ?m). holds x c" by (simp add: solution_def)
  with build_ilp_constraints[OF dn da, of vehicles requests P x]
  have sc: "spec_constraints g vehicles requests x" by simp
  have half: "x (Eps t v) > 0.5 \<longleftrightarrow> x (Eps t v) = 1" if "(t, v) \<in> tv_edges g" for t v
    using bin that by force
  have run: "assignment_ilp solver g vehicles requests greedy P = Inr ?A"
    using rd sv by (simp add: assignment_ilp_def)
  have res: "?A v = Some t \<longleftrightarrow> (t, v) \<in> tv_edges g \<and> x (Eps t v) = 1" for v t
  proof
    assume "?A v = Some t"
    with read_solution_cases[of x Map.empty "epsilon_keys g" v]
    have "(t, v) \<in> set (epsilon_keys g) \<and> x (Eps t v) > 0.5" by auto
    then have "(t, v) \<in> tv_edges g" "x (Eps t v) > 0.5"
      by (simp_all add: epsilon_keys_set)
    with half[of t v] show "(t, v) \<in> tv_edges g \<and> x (Eps t v) = 1" by blast
  next
    assume a: "(t, v) \<in> tv_edges g \<and> x (Eps t v) = 1"
    then have "(t, v) \<in> set (epsilon_keys g)" "x (Eps t v) > 0.5"
      by (simp_all add: epsilon_keys_set)
    from read_solution_hit[where x = x and A = Map.empty, OF this] obtain t'
      where t': "?A v = Some t'" "(t', v) \<in> set (epsilon_keys g)" "x (Eps t' v) > 0.5"
      by blast
    then have "(t', v) \<in> tv_edges g" "x (Eps t' v) > 0.5"
      by (simp_all add: epsilon_keys_set)
    with half[of t' v] have b: "(t', v) \<in> tv_edges g" "x (Eps t' v) = 1" by blast+
    from a vs obtain vd where vd: "vd \<in> set vehicles" "v = vid vd" by force
    with sc have "(\<Sum>e\<in>{e \<in> tv_edges g. snd e = v}. x (Eps (fst e) (snd e))) \<le> 1"
      by (simp add: spec_constraints_def)
    from one_edge_per_vehicle[OF this bin _ _ b] a have "t = t'" by simp
    with t'(1) show "?A v = Some t" by simp
  qed
  have ex: "\<exists>A. assignment_ilp solver g vehicles requests greedy P = Inr A
              \<and> (\<forall>v t. A v = Some t \<longleftrightarrow> (t, v) \<in> tv_edges g \<and> x (Eps t v) = 1)"
    using run res by blast
  from vars have v1: "\<forall>p\<in>set (ilp_vars ?m). snd p = Binary"
    and v2: "distinct (map fst (ilp_vars ?m))"
    and v3: "set (map fst (ilp_vars ?m))
           = (\<lambda>e. Eps (fst e) (snd e)) ` tv_edges g \<union> Chi ` rid ` set requests"
    by blast+
  have c: "\<forall>y. (\<forall>c\<in>set (ilp_constrs ?m). holds y c)
                \<longleftrightarrow> spec_constraints g vehicles requests y"
    using build_ilp_constraints[OF dn da, of vehicles requests P] by blast
  have ob: "\<forall>y. objective_value y ?m = spec_objective g requests P y"
    using build_ilp_objective[of _ g vehicles requests P] by blast
  show ?thesis
    by (intro conjI sense v1 v2 v3 c ob ex)
qed

lemma demo_readable: "readable rtv_demo"
  by code_simp

lemma demo_solution_ok:
  "solution demo_solution (build_ilp rtv_demo [v_empty, v_second] [q1, q2] 1000)"
  by code_simp

lemma demo_vehicles: "\<forall>e\<in>set (epsilon_keys rtv_demo). snd e \<in> vid ` set [v_empty, v_second]"
  by code_simp

lemma demo_distinct: "distinct (rtv_nodes rtv_demo)" "\<forall>n. distinct (rtv_adj rtv_demo n)"
  by (simp_all add: rtv_demo_def split: option.splits)

lemma demo_keys:
  "epsilon_keys rtv_demo
     = [(''t1'', ''v1''), (''t1'', ''v2''), (''t2'', ''v1''), (''t3'', ''v1'')]"
  by code_simp

lemma demo_requests: "distinct (map rid [q1, q2])"
  by (simp add: q1_def q2_def)

lemma demo_chi_repeated:
  "length (ilp_vars (build_ilp rtv_demo [v_empty, v_second] [q1, q2, q1] 1000)) = 7"
  by code_simp

theorem assignment_ilp_program_witness:
  "readable rtv_demo
   \<and> distinct (map rid [q1, q2])
   \<and> solution demo_solution (build_ilp rtv_demo [v_empty, v_second] [q1, q2] 1000)
   \<and> (\<exists>A. assignment_ilp demo_solver rtv_demo [v_empty, v_second] [q1, q2] [] 1000 = Inr A
          \<and> A ''v1'' = Some ''t3'' \<and> A ''v2'' = Some ''t1'')
   \<and> objective_value demo_solution (build_ilp rtv_demo [v_empty, v_second] [q1, q2] 1000)
       = spec_objective rtv_demo [q1, q2] 1000 demo_solution
   \<and> ilp_sense (build_ilp rtv_demo [v_empty, v_second] [q1, q2] 1000) = Minimize"
proof -
  have vs: "\<forall>e\<in>tv_edges rtv_demo. snd e \<in> vid ` set [v_empty, v_second]"
    using demo_vehicles by (simp only: epsilon_keys_set)
  have sv: "demo_solver (build_ilp rtv_demo [v_empty, v_second] [q1, q2] 1000)
      (warm_start rtv_demo []) = Some demo_solution"
    by (simp add: demo_solver_def)
  note th = assignment_ilp_program[where solver = demo_solver and greedy = "[]",
      OF demo_readable demo_distinct demo_requests vs sv demo_solution_ok]
  from th obtain A
    where A: "assignment_ilp demo_solver rtv_demo [v_empty, v_second] [q1, q2] [] 1000 = Inr A"
      and r: "\<forall>v t. A v = Some t \<longleftrightarrow> (t, v) \<in> tv_edges rtv_demo \<and> demo_solution (Eps t v) = 1"
    by blast
  have k1: "(''t3'', ''v1'') \<in> tv_edges rtv_demo" and k2: "(''t1'', ''v2'') \<in> tv_edges rtv_demo"
    unfolding epsilon_keys_set[symmetric] demo_keys by simp_all
  have "demo_solution (Eps ''t3'' ''v1'') = 1" "demo_solution (Eps ''t1'' ''v2'') = 1"
    by (simp_all add: demo_solution_def)
  with k1 k2 r[THEN spec, THEN spec, of "''v1''" "''t3''"]
    r[THEN spec, THEN spec, of "''v2''" "''t1''"]
  have v: "A ''v1'' = Some ''t3''" "A ''v2'' = Some ''t1''" by simp_all
  from A v have ex: "\<exists>A. assignment_ilp demo_solver rtv_demo [v_empty, v_second] [q1, q2] []
        1000 = Inr A \<and> A ''v1'' = Some ''t3'' \<and> A ''v2'' = Some ''t1''"
    by (intro exI[of _ A] conjI)
  from th have ob: "objective_value demo_solution
        (build_ilp rtv_demo [v_empty, v_second] [q1, q2] 1000)
       = spec_objective rtv_demo [q1, q2] 1000 demo_solution"
    by blast
  from th have se: "ilp_sense (build_ilp rtv_demo [v_empty, v_second] [q1, q2] 1000) = Minimize"
    by blast
  show ?thesis
    by (rule conjI[OF demo_readable conjI[OF demo_requests conjI[OF demo_solution_ok
          conjI[OF ex conjI[OF ob se]]]]])
qed

end
